theory Spec2Isabelle
  imports Main
begin

section \<open>Data model\<close>

text \<open>
  The exceptions the pipeline can end with. \<open>SystemExit\<close> is what \<open>exit()\<close> raises; the
  others are raised by the library calls of \<open>Utils.py\<close> and are not handled there.
\<close>

datatype error =
    SystemExit
  | ParseError
  | KeyError
  | TypeError
  | AttributeError
  | ValueError
  | BadZipFile
  | UnicodeDecodeError
  | UnboundLocalError
  | ClientError

text \<open>
  An element as \<open>ElementTree\<close> presents it: tag, attributes, text (\<open>None\<close> when the element
  has no character data before its first child) and children in document order.
\<close>

datatype xml =
  Elem (tag: string) (attrib: "(string \<times> string) list") (el_text: "string option")
       (children: "xml list")

text \<open>An HTTP response: \<open>r.text\<close> and \<open>r.content\<close>.\<close>

record response =
  resp_text :: string
  resp_content :: string

text \<open>An archive member: its name and its bytes (\<open>None\<close> when reading it fails its check).\<close>

record zipinfo =
  filename :: string
  payload :: "string option"

text \<open>A Python dict with string keys whose values are strings or \<open>None\<close>.\<close>

type_synonym pydict = "(string \<times> string option) list"

text \<open>
  The effects a run can be observed by: a \<open>requests.get\<close>, a \<open>sleep\<close>, an S3
  \<open>put_object\<close> (bucket, key, body). Logging is left out: it does not change control flow.
\<close>

datatype event = Get string | Sleep nat | Put string string string

text \<open>
  Everything the code takes from outside \<open>Utils.py\<close>: the two constants of
  \<open>Constants.py\<close>, and the library calls. The network answers the \<open>n\<close>-th request of the
  run (counted from 0) for a URL with a response, or raises a \<open>RequestException\<close>
  (\<open>None\<close>). \<open>xml_parse\<close> is \<open>ElementTree.parse\<close> (\<open>None\<close>: \<open>ParseError\<close>), \<open>el_find\<close> is
  \<open>find\<close> with a path, \<open>zip_open\<close> is the \<open>ZipFile\<close> constructor (\<open>None\<close>:
  \<open>BadZipFile\<close>), \<open>u8_decode\<close> is \<open>bytes.decode("u8")\<close>, \<open>s3_client\<close> tells whether
  \<open>boto3.client\<close> returns.
\<close>

record env =
  URL :: string
  TARGET_ELEMENTS :: "(string \<times> string) list"
  http_get :: "nat \<Rightarrow> string \<Rightarrow> response option"
  xml_parse :: "string \<Rightarrow> xml option"
  el_find :: "string \<Rightarrow> xml \<Rightarrow> xml option"
  zip_open :: "string \<Rightarrow> zipinfo list option"
  u8_decode :: "string \<Rightarrow> string option"
  s3_client :: bool

fun is_Get :: "event \<Rightarrow> bool" where
  "is_Get (Get u) = True"
| "is_Get e = False"

definition gets :: "event list \<Rightarrow> nat" where
  "gets tr = length (filter is_Get tr)"

section \<open>Library behaviour with a fixed argument\<close>

subsection \<open>\<open>findall(".//tag")\<close>\<close>

text \<open>All elements below the given one, in document order (the element itself excluded).\<close>

fun descendants :: "xml \<Rightarrow> xml list" where
  "descendants (Elem t a x cs) = concat (map (\<lambda>c. c # descendants c) cs)"

definition findall_desc :: "string \<Rightarrow> xml \<Rightarrow> xml list" where
  "findall_desc t e = filter (\<lambda>c. tag c = t) (descendants e)"

subsection \<open>\<open>re.match(r"DLTINS_(.*?)_.*?\.zip", s)\<close>\<close>

text \<open>\<open>.*?\.zip\<close> at the start of a string: \<open>.\<close> matches every character but a newline.\<close>

fun zip_tail :: "string \<Rightarrow> bool" where
  "zip_tail [] = False"
| "zip_tail (c # cs) = (take 4 (c # cs) = ''.zip'' \<or> (c \<noteq> CHR 0x0A \<and> zip_tail cs))"

text \<open>
  \<open>(.*?)_.*?\.zip\<close> at the start of a string: group 1 is the shortest prefix without a
  newline that is followed by an underscore after which \<open>.*?\.zip\<close> matches.
\<close>

fun date_group :: "string \<Rightarrow> string option" where
  "date_group [] = None"
| "date_group (c # cs) =
     (if c = CHR ''_'' \<and> zip_tail cs then Some []
      else if c = CHR 0x0A then None
      else map_option (Cons c) (date_group cs))"

definition re_match_date :: "string \<Rightarrow> string option" where
  "re_match_date s =
     (if take 7 s = ''DLTINS_'' then date_group (drop 7 s) else None)"

subsection \<open>\<open>int(s)\<close>\<close>

text \<open>
  The decimal literals \<open>int\<close> accepts: surrounding whitespace, an optional sign, digits with
  single underscores between them, and no more digits than the interpreter's default limit
  of 4300 (a longer literal raises \<open>ValueError\<close>). Characters are the code points below 256:
  of these \<open>int\<close> strips tab, line feed, vertical tab, form feed, carriage return, space,
  0x85 and 0xA0 (not the separators 0x1C to 0x1F), and only \<open>0\<close> to \<open>9\<close> are digits.
\<close>

definition py_isspace :: "char \<Rightarrow> bool" where
  "py_isspace c = (c \<in> set [CHR 0x09, CHR 0x0A, CHR 0x0B, CHR 0x0C, CHR 0x0D,
     CHR 0x20, CHR 0x85, CHR 0xA0])"

definition py_isdigit :: "char \<Rightarrow> bool" where
  "py_isdigit c = (48 \<le> (of_char c :: nat) \<and> (of_char c :: nat) \<le> 57)"

definition digit_val :: "char \<Rightarrow> int" where
  "digit_val c = int (of_char c) - 48"

fun int_digits :: "int \<Rightarrow> string \<Rightarrow> int option" where
  "int_digits acc [] = Some acc"
| "int_digits acc [c] = (if py_isdigit c then Some (acc * 10 + digit_val c) else None)"
| "int_digits acc (c # d # cs) =
     (if py_isdigit c then int_digits (acc * 10 + digit_val c) (d # cs)
      else if c = CHR ''_'' \<and> py_isdigit d then int_digits (acc * 10 + digit_val d) cs
      else None)"

definition max_str_digits :: nat where
  "max_str_digits = 4300"

definition int_unsigned :: "string \<Rightarrow> int option" where
  "int_unsigned s =
     (if max_str_digits < length (filter py_isdigit s) then None
      else
        (case s of [] \<Rightarrow> None
         | c # cs \<Rightarrow> if py_isdigit c then int_digits (digit_val c) cs else None))"

definition strip :: "string \<Rightarrow> string" where
  "strip s = rev (dropWhile py_isspace (rev (dropWhile py_isspace s)))"

definition py_int :: "string \<Rightarrow> int option" where
  "py_int s =
     (case strip s of [] \<Rightarrow> None
      | c # cs \<Rightarrow>
          if c = CHR ''-'' then map_option uminus (int_unsigned cs)
          else if c = CHR ''+'' then int_unsigned cs
          else int_unsigned (c # cs))"

section \<open>\<open>get_latest_file\<close>\<close>

text \<open>\<open>min_date\<close> starts as \<open>float('inf')\<close> and is an \<open>int\<close> afterwards.\<close>

datatype pynum = PosInf | PyInt int

fun int_less :: "int \<Rightarrow> pynum \<Rightarrow> bool" where
  "int_less d PosInf = True"
| "int_less d (PyInt m) = (d < m)"

text \<open>
  The dict comprehension over \<open>doc.findall(".//str")\<close>: a later element overwrites an
  earlier one with the same \<open>name\<close>; an element without the attribute has the key \<open>None\<close>.
\<close>

definition file_info :: "xml \<Rightarrow> (string option \<times> string option) list" where
  "file_info doc =
     map (\<lambda>x. (map_of (attrib x) ''name'', el_text x)) (findall_desc ''str'' doc)"

definition getitem :: "(string option \<times> string option) list \<Rightarrow> string \<Rightarrow> error + string option" where
  "getitem d k = (case map_of (rev d) (Some k) of None \<Rightarrow> Inl KeyError | Some v \<Rightarrow> Inr v)"

text \<open>Lines 52 and 53: the date of one entry, or the exception raised on the way.\<close>

definition entry_date :: "xml \<Rightarrow> error + int" where
  "entry_date doc =
     (case getitem (file_info doc) ''file_name'' of
        Inl e \<Rightarrow> Inl e
      | Inr None \<Rightarrow> Inl TypeError
      | Inr (Some name) \<Rightarrow>
          (case re_match_date name of
             None \<Rightarrow> Inl AttributeError
           | Some g \<Rightarrow>
               (case py_int g of None \<Rightarrow> Inl ValueError | Some date_int \<Rightarrow> Inr date_int)))"

definition entry_link :: "xml \<Rightarrow> error + string option" where
  "entry_link doc = getitem (file_info doc) ''download_link''"

text \<open>The loop over \<open>docs\<close> (lines 46 to 58) and the \<open>return target\<close> after it.\<close>

fun select_loop :: "xml list \<Rightarrow> pynum \<Rightarrow> string option \<Rightarrow> error + string option" where
  "select_loop [] min_date target = Inr target"
| "select_loop (doc # docs) min_date target =
     (case entry_date doc of
        Inl e \<Rightarrow> Inl e
      | Inr date_int \<Rightarrow>
          if int_less date_int min_date then
            (case entry_link doc of
               Inl e \<Rightarrow> Inl e
             | Inr link \<Rightarrow> select_loop docs (PyInt date_int) link)
          else select_loop docs min_date target)"

definition selectLatest :: "xml \<Rightarrow> error + string option" where
  "selectLatest tree = select_loop (findall_desc ''doc'' tree) PosInf None"

function get_latest_file :: "env \<Rightarrow> bool \<Rightarrow> event list \<Rightarrow> (error + string option) \<times> event list" where
  "get_latest_file E retry tr =
     (case http_get E (gets tr) (URL E) of
        None \<Rightarrow>
          if retry then (Inl SystemExit, tr @ [Get (URL E)])
          else get_latest_file E True (tr @ [Get (URL E), Sleep 10])
      | Some r \<Rightarrow>
          (case xml_parse E (resp_text r) of
             None \<Rightarrow> (Inl ParseError, tr @ [Get (URL E)])
           | Some tree \<Rightarrow> (selectLatest tree, tr @ [Get (URL E)])))"
  by pat_completeness auto
termination
  by (relation "measure (\<lambda>(E, retry, tr). if retry then 0 else 1)") auto

section \<open>\<open>get_data\<close>\<close>

subsection \<open>\<open>re.findall(r"<FinInstrm>.*?</FinInstrm>", xml)\<close>\<close>

text \<open>
  \<open>.*?</FinInstrm>\<close> at the start of a string: the matched text and what follows it.
\<close>

fun record_body :: "string \<Rightarrow> (string \<times> string) option" where
  "record_body [] = None"
| "record_body (c # cs) =
     (if take 12 (c # cs) = ''</FinInstrm>'' then Some (''</FinInstrm>'', drop 12 (c # cs))
      else if c = CHR 0x0A then None
      else map_option (\<lambda>(m, rest). (c # m, rest)) (record_body cs))"

text \<open>The matches from left to right, without overlap; the scan resumes after a match.\<close>

function findall_records :: "string \<Rightarrow> string list" where
  "findall_records [] = []"
| "findall_records (c # cs) =
     (if take 11 (c # cs) = ''<FinInstrm>'' then
        (case record_body (drop 11 (c # cs)) of
           Some (m, rest) \<Rightarrow> (''<FinInstrm>'' @ m) # findall_records rest
         | None \<Rightarrow> findall_records cs)
      else findall_records cs)"
  by pat_completeness auto
termination
proof (relation "measure length")
  have shorter: "length rest \<le> length s" if "record_body s = Some (m, rest)" for s m rest
    using that
  proof (induction s arbitrary: m rest)
    case Nil
    then show ?case by simp
  next
    case (Cons c cs)
    then show ?case
      by (fastforce split: if_splits)
  qed
  fix c :: char and cs x2 x y
  assume "take 11 (c # cs) = ''<FinInstrm>''"
    and "record_body (drop 11 (c # cs)) = Some x2" and "(x, y) = x2"
  then have "length y \<le> length (drop 11 (c # cs))"
    using shorter [of "drop 11 (c # cs)" x y] by simp
  then show "(y, c # cs) \<in> measure length"
    by simp
qed simp_all

subsection \<open>The record loop\<close>

text \<open>
  The dict comprehension of lines 104 to 108: \<open>tree.find(element).text\<close> for every pair of
  \<open>TARGET_ELEMENTS\<close>, in its order. \<open>find\<close> returns \<open>None\<close> for a path that selects
  nothing, and \<open>None.text\<close> raises \<open>AttributeError\<close>.
\<close>

fun project :: "env \<Rightarrow> (string \<times> string) list \<Rightarrow> xml \<Rightarrow> error + pydict" where
  "project E [] tree = Inr []"
| "project E ((alias, element) # items) tree =
     (case el_find E element tree of
        None \<Rightarrow> Inl AttributeError
      | Some e \<Rightarrow>
          (case project E items tree of
             Inl err \<Rightarrow> Inl err
           | Inr d \<Rightarrow> Inr ((alias, el_text e) # d)))"

text \<open>\<open>while records:\<close> with \<open>records.pop()\<close>, which takes the last fragment.\<close>

function get_data_records :: "env \<Rightarrow> string list \<Rightarrow> pydict list \<Rightarrow> error + pydict list" where
  "get_data_records E records output =
     (if records = [] then Inr output
      else
        (case xml_parse E (last records) of
           None \<Rightarrow> Inl ParseError
         | Some tree \<Rightarrow>
             (case project E (TARGET_ELEMENTS E) tree of
                Inl e \<Rightarrow> Inl e
              | Inr d \<Rightarrow> get_data_records E (butlast records) (output @ [d]))))"
  by pat_completeness auto
termination
  by (relation "measure (\<lambda>(E, records, output). length records)") auto

text \<open>\<open>for file in zf.filelist:\<close>\<close>

fun get_data_files :: "env \<Rightarrow> zipinfo list \<Rightarrow> pydict list \<Rightarrow> error + pydict list" where
  "get_data_files E [] output = Inr output"
| "get_data_files E (file # files) output =
     (case payload file of
        None \<Rightarrow> Inl BadZipFile
      | Some bytes \<Rightarrow>
          (case u8_decode E bytes of
             None \<Rightarrow> Inl UnicodeDecodeError
           | Some xml \<Rightarrow>
               (case get_data_records E (findall_records xml) output of
                  Inl e \<Rightarrow> Inl e
                | Inr output' \<Rightarrow> get_data_files E files output')))"

text \<open>
  \<open>zf.testzip()\<close> goes through the members in the order of the list and opens each by its
  name; a name stands for the last member of the list that has it (\<open>getinfo\<close>, which
  cannot fail for the name of a member). It returns the first name whose member fails
  its check, or \<open>None\<close>.
\<close>

definition getinfo :: "zipinfo list \<Rightarrow> string \<Rightarrow> zipinfo option" where
  "getinfo filelist name = find (\<lambda>m. filename m = name) (rev filelist)"

fun testzip_from :: "zipinfo list \<Rightarrow> zipinfo list \<Rightarrow> string option" where
  "testzip_from filelist [] = None"
| "testzip_from filelist (zinfo # rest) =
     (case getinfo filelist (filename zinfo) of
        None \<Rightarrow> testzip_from filelist rest
      | Some m \<Rightarrow>
          (case payload m of
             None \<Rightarrow> Some (filename zinfo)
           | Some bytes \<Rightarrow> testzip_from filelist rest))"

definition testzip :: "zipinfo list \<Rightarrow> string option" where
  "testzip filelist = testzip_from filelist filelist"

text \<open>The truth value of a string or \<open>None\<close>: \<open>None\<close> and the empty string are false.\<close>

fun truthy :: "string option \<Rightarrow> bool" where
  "truthy None = False"
| "truthy (Some s) = (s \<noteq> [])"

text \<open>
  The \<open>try\<close> block, its two handlers, the loops, and the \<open>return\<close>, where \<open>file\<close> is
  unbound when the archive has no member.
\<close>

function get_data :: "env \<Rightarrow> string \<Rightarrow> bool \<Rightarrow> event list
    \<Rightarrow> (error + pydict list \<times> string) \<times> event list" where
  "get_data E target retry tr =
     (case http_get E (gets tr) target of
        None \<Rightarrow>
          if retry then (Inl SystemExit, tr @ [Get target])
          else get_data E target True (tr @ [Get target, Sleep 10])
      | Some r \<Rightarrow>
          (case zip_open E (resp_content r) of
             None \<Rightarrow> (Inl SystemExit, tr @ [Get target])
           | Some filelist \<Rightarrow>
               if truthy (testzip filelist) then (Inl SystemExit, tr @ [Get target])
               else
                 (case get_data_files E filelist [] of
                    Inl e \<Rightarrow> (Inl e, tr @ [Get target])
                  | Inr output \<Rightarrow>
                      if filelist = [] then (Inl UnboundLocalError, tr @ [Get target])
                      else (Inr (output, filename (last filelist)), tr @ [Get target]))))"
  by pat_completeness auto
termination
  by (relation "measure (\<lambda>(E, target, retry, tr). if retry then 0 else 1)") auto

section \<open>\<open>write_to_csv\<close>\<close>

text \<open>
  \<open>csv.writer\<close> with the \<open>excel\<close> dialect: a field is quoted when it holds a comma, a
  quote, a carriage return or a line feed, and a quote inside it is doubled; a row of one
  empty field is written as two quotes; every row ends with \<open>\r\n\<close>.
\<close>

definition special :: "char \<Rightarrow> bool" where
  "special c = (c = CHR '','' \<or> c = CHR 0x22 \<or> c = CHR 0x0D \<or> c = CHR 0x0A)"

fun escape :: "string \<Rightarrow> string" where
  "escape [] = []"
| "escape (c # cs) = (if c = CHR 0x22 then c # c # escape cs else c # escape cs)"

definition quote_field :: "string \<Rightarrow> string" where
  "quote_field f = (if list_ex special f then CHR 0x22 # escape f @ [CHR 0x22] else f)"

fun join_fields :: "string list \<Rightarrow> string" where
  "join_fields [] = []"
| "join_fields [f] = quote_field f"
| "join_fields (f # g # fs) = quote_field f @ CHR '','' # join_fields (g # fs)"

definition writerow :: "string list \<Rightarrow> string" where
  "writerow row =
     (if row = [[]] then [CHR 0x22, CHR 0x22] else join_fields row) @ [CHR 0x0D, CHR 0x0A]"

text \<open>
  \<open>DictWriter._dict_to_list\<close>: a key that is no field name raises \<open>ValueError\<close>; a field
  name that is no key gives the empty string.
\<close>

definition dict_to_list :: "string list \<Rightarrow> pydict \<Rightarrow> error + string option list" where
  "dict_to_list fieldnames rowdict =
     (if list_ex (\<lambda>k. k \<notin> set fieldnames) (map fst rowdict) then Inl ValueError
      else Inr (map (\<lambda>k. case map_of rowdict k of None \<Rightarrow> Some [] | Some v \<Rightarrow> v) fieldnames))"

text \<open>The writer renders \<open>None\<close> as the empty string.\<close>

fun render :: "string option \<Rightarrow> string" where
  "render None = []"
| "render (Some s) = s"

text \<open>
  \<open>while output:\<close> with \<open>output.pop()\<close>; a row that raises is logged and left out. The
  result is the list as the loop leaves it and the text written.
\<close>

function write_loop :: "string list \<Rightarrow> pydict list \<Rightarrow> string \<Rightarrow> pydict list \<times> string" where
  "write_loop fieldnames output outf =
     (if output = [] then (output, outf)
      else
        (case dict_to_list fieldnames (last output) of
           Inl e \<Rightarrow> write_loop fieldnames (butlast output) outf
         | Inr row \<Rightarrow>
             write_loop fieldnames (butlast output) (outf @ writerow (map render row))))"
  by pat_completeness auto
termination
  by (relation "measure (\<lambda>(fieldnames, output, outf). length output)") auto

definition write_to_csv :: "env \<Rightarrow> pydict list \<Rightarrow> pydict list \<times> string" where
  "write_to_csv E output =
     write_loop (map fst (TARGET_ELEMENTS E)) output (writerow (map fst (TARGET_ELEMENTS E)))"

section \<open>\<open>upload_to_s3\<close> and \<open>put_first_firds_file_in_s3\<close>\<close>

text \<open>
  \<open>boto3.client\<close> is called outside the \<open>try\<close>; what \<open>put_object\<close> raises is logged and
  dropped, so the call is all that is observed.
\<close>

definition upload_to_s3 :: "env \<Rightarrow> string \<Rightarrow> string \<Rightarrow> string \<Rightarrow> event list
    \<Rightarrow> (error + unit) \<times> event list" where
  "upload_to_s3 E outf bucket file_name tr =
     (if s3_client E then (Inr (), tr @ [Put bucket file_name outf]) else (Inl ClientError, tr))"

text \<open>The three \<open>return\<close>s of \<open>put_first_firds_file_in_s3\<close>.\<close>

datatype outcome = NoTarget | NoData | Uploaded

definition put_first_firds_file_in_s3 :: "env \<Rightarrow> string \<Rightarrow> event list
    \<Rightarrow> (error + outcome) \<times> event list" where
  "put_first_firds_file_in_s3 E bucket tr =
     (case get_latest_file E False tr of
        (Inl e, tr1) \<Rightarrow> (Inl e, tr1)
      | (Inr target, tr1) \<Rightarrow>
          (case target of
             None \<Rightarrow> (Inr NoTarget, tr1)
           | Some t \<Rightarrow>
               if t = [] then (Inr NoTarget, tr1)
               else
                 (case get_data E t False tr1 of
                    (Inl e, tr2) \<Rightarrow> (Inl e, tr2)
                  | (Inr (output, file_name), tr2) \<Rightarrow>
                      if output = [] then (Inr NoData, tr2)
                      else
                        (case upload_to_s3 E (snd (write_to_csv E output)) bucket file_name tr2 of
                           (Inl e, tr3) \<Rightarrow> (Inl e, tr3)
                         | (Inr u, tr3) \<Rightarrow> (Inr Uploaded, tr3)))))"

declare get_latest_file.simps [simp del]
declare get_data.simps [simp del]
declare get_data_records.simps [simp del]
declare write_loop.simps [simp del]
declare findall_records.simps [simp del]

section \<open>Reading the tabular text back\<close>

text \<open>
  The spec's round trip re-parses the comma-separated text. The reader is the usual
  one for this format, a machine with six states over the characters: a field starts
  quoted or plain; inside quotes two quotes stand for one and every other character,
  line ends included, is data; a comma ends a field; a line feed ends a record, also after
  carriage returns; a line without characters is a record without fields.
  The arguments are the state, the field read so far, the fields of the record so far
  and the rest of the text; \<open>None\<close> is the reader's error for a carriage return that no
  line feed follows.
\<close>

datatype rstate =
  START_RECORD | START_FIELD | IN_FIELD | IN_QUOTED_FIELD | QUOTE_IN_QUOTED_FIELD | EAT_CRNL

fun csv_reader_from :: "rstate \<Rightarrow> string \<Rightarrow> string list \<Rightarrow> string \<Rightarrow> string list list option" where
  "csv_reader_from START_RECORD fld flds [] = Some []"
| "csv_reader_from EAT_CRNL fld flds [] = Some [flds]"
| "csv_reader_from START_FIELD fld flds [] = Some [flds @ [fld]]"
| "csv_reader_from IN_FIELD fld flds [] = Some [flds @ [fld]]"
| "csv_reader_from IN_QUOTED_FIELD fld flds [] = Some [flds @ [fld]]"
| "csv_reader_from QUOTE_IN_QUOTED_FIELD fld flds [] = Some [flds @ [fld]]"
| "csv_reader_from START_RECORD fld flds (c # cs) =
     (if c = CHR 0x0A then map_option (Cons []) (csv_reader_from START_RECORD [] [] cs)
      else if c = CHR 0x0D then csv_reader_from EAT_CRNL [] [] cs
      else if c = CHR 0x22 then csv_reader_from IN_QUOTED_FIELD [] [] cs
      else if c = CHR '','' then csv_reader_from START_FIELD [] [[]] cs
      else csv_reader_from IN_FIELD [c] [] cs)"
| "csv_reader_from START_FIELD fld flds (c # cs) =
     (if c = CHR 0x0A then
        map_option (Cons (flds @ [fld])) (csv_reader_from START_RECORD [] [] cs)
      else if c = CHR 0x0D then csv_reader_from EAT_CRNL [] (flds @ [fld]) cs
      else if c = CHR 0x22 then csv_reader_from IN_QUOTED_FIELD fld flds cs
      else if c = CHR '','' then csv_reader_from START_FIELD [] (flds @ [fld]) cs
      else csv_reader_from IN_FIELD (fld @ [c]) flds cs)"
| "csv_reader_from IN_FIELD fld flds (c # cs) =
     (if c = CHR 0x0A then
        map_option (Cons (flds @ [fld])) (csv_reader_from START_RECORD [] [] cs)
      else if c = CHR 0x0D then csv_reader_from EAT_CRNL [] (flds @ [fld]) cs
      else if c = CHR '','' then csv_reader_from START_FIELD [] (flds @ [fld]) cs
      else csv_reader_from IN_FIELD (fld @ [c]) flds cs)"
| "csv_reader_from IN_QUOTED_FIELD fld flds (c # cs) =
     (if c = CHR 0x22 then csv_reader_from QUOTE_IN_QUOTED_FIELD fld flds cs
      else csv_reader_from IN_QUOTED_FIELD (fld @ [c]) flds cs)"
| "csv_reader_from QUOTE_IN_QUOTED_FIELD fld flds (c # cs) =
     (if c = CHR 0x22 then csv_reader_from IN_QUOTED_FIELD (fld @ [c]) flds cs
      else if c = CHR '','' then csv_reader_from START_FIELD [] (flds @ [fld]) cs
      else if c = CHR 0x0A then
        map_option (Cons (flds @ [fld])) (csv_reader_from START_RECORD [] [] cs)
      else if c = CHR 0x0D then csv_reader_from EAT_CRNL [] (flds @ [fld]) cs
      else csv_reader_from IN_FIELD (fld @ [c]) flds cs)"
| "csv_reader_from EAT_CRNL fld flds (c # cs) =
     (if c = CHR 0x0A then map_option (Cons flds) (csv_reader_from START_RECORD [] [] cs)
      else if c = CHR 0x0D then csv_reader_from EAT_CRNL fld flds cs
      else None)"

definition csv_reader :: "string \<Rightarrow> string list list option" where
  "csv_reader outf = csv_reader_from START_RECORD [] [] outf"

section \<open>Notions the properties are stated with\<close>

text \<open>What one turn of the loop writes for the row it popped.\<close>

definition row_text :: "string list \<Rightarrow> pydict \<Rightarrow> string" where
  "row_text fieldnames rowdict =
     (case dict_to_list fieldnames rowdict of Inl e \<Rightarrow> [] | Inr row \<Rightarrow> writerow (map render row))"

text \<open>
  A feed entry is valid when lines 52 and 53 give it a date and it has a download link
  that is a string.
\<close>

definition entry_valid :: "xml \<Rightarrow> bool" where
  "entry_valid doc =
     (case entry_date doc of
        Inl e \<Rightarrow> False
      | Inr n \<Rightarrow> (case entry_link doc of Inr (Some l) \<Rightarrow> True | _ \<Rightarrow> False))"

definition date_of :: "xml \<Rightarrow> int" where
  "date_of doc = (case entry_date doc of Inr n \<Rightarrow> n | Inl e \<Rightarrow> 0)"

definition link_of :: "xml \<Rightarrow> string" where
  "link_of doc = (case entry_link doc of Inr (Some l) \<Rightarrow> l | _ \<Rightarrow> [])"

text \<open>
  A fragment is well formed when it parses and every configured path selects an element
  in it; the fragments of an archive member are those of its decoded text.
\<close>

definition well_formed :: "env \<Rightarrow> string \<Rightarrow> bool" where
  "well_formed E fragment =
     (case xml_parse E fragment of
        None \<Rightarrow> False
      | Some tree \<Rightarrow> list_all (\<lambda>(alias, element). el_find E element tree \<noteq> None) (TARGET_ELEMENTS E))"

definition fragments :: "env \<Rightarrow> zipinfo \<Rightarrow> string list option" where
  "fragments E file =
     (case payload file of
        None \<Rightarrow> None
      | Some bytes \<Rightarrow> map_option findall_records (u8_decode E bytes))"

definition n_fragments :: "env \<Rightarrow> zipinfo \<Rightarrow> nat" where
  "n_fragments E file = (case fragments E file of None \<Rightarrow> 0 | Some frs \<Rightarrow> length frs)"

definition member_ok :: "env \<Rightarrow> zipinfo \<Rightarrow> bool" where
  "member_ok E file =
     (case fragments E file of None \<Rightarrow> False | Some frs \<Rightarrow> list_all (well_formed E) frs)"

text \<open>The value \<open>DictWriter\<close> writes in a column for a row: the empty string for an absent
  key and for \<open>None\<close>.\<close>

definition cell :: "pydict \<Rightarrow> string \<Rightarrow> string" where
  "cell rowdict k = (case map_of rowdict k of Some (Some s) \<Rightarrow> s | _ \<Rightarrow> [])"

definition field_mapping :: "string list \<Rightarrow> pydict \<Rightarrow> bool" where
  "field_mapping fieldnames rowdict = list_all (\<lambda>k. k \<in> set fieldnames) (map fst rowdict)"

section \<open>Sample inputs\<close>

text \<open>A feed entry with the two required fields, and a feed document of entries.\<close>

definition feed_doc :: "string \<Rightarrow> string \<Rightarrow> xml" where
  "feed_doc name link =
     Elem ''doc'' [] None
       [Elem ''str'' [(''name'', ''file_name'')] (Some name) [],
        Elem ''str'' [(''name'', ''download_link'')] (Some link) []]"

definition feed :: "xml list \<Rightarrow> xml" where
  "feed docs = Elem ''response'' [] None [Elem ''result'' [] None docs]"

text \<open>The feed of the spec's scenario: two entries, dated 20230102 and 20230101.\<close>

definition sample_docs :: "xml list" where
  "sample_docs =
     [feed_doc ''DLTINS_20230102_01of01.zip'' ''http://b'',
      feed_doc ''DLTINS_20230101_01of01.zip'' ''http://a'']"

definition sample_feed_text :: string where
  "sample_feed_text =
     ''<response><result>'' @
     ''<doc><str name=\"file_name\">DLTINS_20230102_01of01.zip</str>'' @
     ''<str name=\"download_link\">http://b</str></doc>'' @
     ''<doc><str name=\"file_name\">DLTINS_20230101_01of01.zip</str>'' @
     ''<str name=\"download_link\">http://a</str></doc>'' @
     ''</result></response>''"

text \<open>A feed whose second entry has a file name outside the grammar.\<close>

definition mixed_docs :: "xml list" where
  "mixed_docs =
     [feed_doc ''DLTINS_20230102_01of01.zip'' ''http://b'',
      feed_doc ''FULINS_20230101_01of01.zip'' ''http://a'']"

definition mixed_feed_text :: string where
  "mixed_feed_text =
     ''<response><result>'' @
     ''<doc><str name=\"file_name\">DLTINS_20230102_01of01.zip</str>'' @
     ''<str name=\"download_link\">http://b</str></doc>'' @
     ''<doc><str name=\"file_name\">FULINS_20230101_01of01.zip</str>'' @
     ''<str name=\"download_link\">http://a</str></doc>'' @
     ''</result></response>''"

text \<open>A feed whose second entry has a date token that is no integer.\<close>

definition dashed_docs :: "xml list" where
  "dashed_docs =
     [feed_doc ''DLTINS_20230101_01of01.zip'' ''http://a'',
      feed_doc ''DLTINS_2023-01-02_01of01.zip'' ''http://b'']"

definition dashed_feed_text :: string where
  "dashed_feed_text =
     ''<response><result>'' @
     ''<doc><str name=\"file_name\">DLTINS_20230101_01of01.zip</str>'' @
     ''<str name=\"download_link\">http://a</str></doc>'' @
     ''<doc><str name=\"file_name\">DLTINS_2023-01-02_01of01.zip</str>'' @
     ''<str name=\"download_link\">http://b</str></doc>'' @
     ''</result></response>''"

definition empty_feed_text :: string where
  "empty_feed_text = ''<response><result></result></response>''"

text \<open>A response whose text is the given one.\<close>

definition feed_response :: "string \<Rightarrow> response" where
  "feed_response s = \<lparr> resp_text = s, resp_content = [] \<rparr>"

text \<open>
  Record fragments: two with both configured elements (the second with an empty \<open>Nm\<close>),
  one without \<open>Nm\<close>, and one that is not well-formed XML (\<open>Id\<close> is never closed).
\<close>

definition frag_A :: string where
  "frag_A = ''<FinInstrm><Id>A</Id><Nm>x</Nm></FinInstrm>''"

definition frag_B :: string where
  "frag_B = ''<FinInstrm><Id>B</Id><Nm/></FinInstrm>''"

definition frag_C :: string where
  "frag_C = ''<FinInstrm><Id>C</Id></FinInstrm>''"

definition frag_bad :: string where
  "frag_bad = ''<FinInstrm><Id>D</FinInstrm>''"

text \<open>Archives, and a response whose content is the given bytes.\<close>

definition good_archive :: "zipinfo list" where
  "good_archive =
     [\<lparr> filename = ''a.xml'', payload = Some (''<Doc>'' @ frag_A @ frag_B @ ''</Doc>'') \<rparr>,
      \<lparr> filename = ''b.xml'', payload = Some (''<Doc>'' @ frag_A @ ''</Doc>'') \<rparr>]"

definition malformed_archive :: "zipinfo list" where
  "malformed_archive =
     [\<lparr> filename = ''a.xml'', payload = Some (''<Doc>'' @ frag_A @ frag_bad @ ''</Doc>'') \<rparr>]"

definition missing_archive :: "zipinfo list" where
  "missing_archive =
     [\<lparr> filename = ''a.xml'', payload = Some (''<Doc>'' @ frag_C @ ''</Doc>'') \<rparr>]"

definition corrupt_archive :: "zipinfo list" where
  "corrupt_archive =
     [\<lparr> filename = ''a.xml'', payload = Some (''<Doc>'' @ frag_A @ ''</Doc>'') \<rparr>,
      \<lparr> filename = ''b.xml'', payload = None \<rparr>]"

definition sample_zips :: "(string \<times> zipinfo list) list" where
  "sample_zips =
     [(''good'', good_archive), (''malformed'', malformed_archive),
      (''missing'', missing_archive), (''corrupt'', corrupt_archive)]"

definition archive_response :: "string \<Rightarrow> response" where
  "archive_response s = \<lparr> resp_text = [], resp_content = s \<rparr>"

text \<open>\<open>find\<close> for a path that is a plain tag: the first child with that tag.\<close>

definition find_child :: "string \<Rightarrow> xml \<Rightarrow> xml option" where
  "find_child path e = find (\<lambda>c. tag c = path) (children e)"

text \<open>
  \<open>ElementTree.parse\<close> on the texts the examples use; every other text of the examples
  is not well-formed.
\<close>

definition tree_A :: xml where
  "tree_A = Elem ''FinInstrm'' [] None [Elem ''Id'' [] (Some ''A'') [], Elem ''Nm'' [] (Some ''x'') []]"

definition tree_B :: xml where
  "tree_B = Elem ''FinInstrm'' [] None [Elem ''Id'' [] (Some ''B'') [], Elem ''Nm'' [] None []]"

definition tree_C :: xml where
  "tree_C = Elem ''FinInstrm'' [] None [Elem ''Id'' [] (Some ''C'') []]"

definition sample_parse :: "string \<Rightarrow> xml option" where
  "sample_parse s =
     map_of
       [(empty_feed_text, feed []),
        (sample_feed_text, feed sample_docs),
        (mixed_feed_text, feed mixed_docs),
        (dashed_feed_text, feed dashed_docs),
        (frag_A, tree_A),
        (frag_B, tree_B),
        (frag_C, tree_C)] s"

text \<open>
  An environment for the examples: the network answers from a list (a request past its
  end fails), archives are given by name.
\<close>

definition sample_env :: "response option list \<Rightarrow> (string \<times> zipinfo list) list \<Rightarrow> env" where
  "sample_env net zips =
     \<lparr> URL = ''http://registry'',
       TARGET_ELEMENTS = [(''Id'', ''Id''), (''Nm'', ''Nm'')],
       http_get = (\<lambda>n u. if n < length net then net ! n else None),
       xml_parse = sample_parse,
       el_find = find_child,
       zip_open = map_of zips,
       u8_decode = Some,
       s3_client = True \<rparr>"

text \<open>Two rows over the columns of the sample environment.\<close>

definition sample_rows :: "pydict list" where
  "sample_rows = [[(''Id'', Some ''a,b''), (''Nm'', None)], [(''Id'', Some ''x''), (''Nm'', Some ''y'')]]"

section \<open>The serializer and the reader\<close>

lemma reader_plain:
  "\<not> list_ex special f \<Longrightarrow>
   csv_reader_from IN_FIELD fld flds (f @ rest) = csv_reader_from IN_FIELD (fld @ f) flds rest"
  by (induction f arbitrary: fld) (auto simp: special_def)

lemma reader_quoted:
  "csv_reader_from IN_QUOTED_FIELD fld flds (escape f @ CHR 0x22 # rest) =
   csv_reader_from QUOTE_IN_QUOTED_FIELD (fld @ f) flds rest"
  by (induction f arbitrary: fld) auto

lemma reader_field_comma:
  "csv_reader_from START_FIELD [] flds (quote_field f @ CHR '','' # rest) =
   csv_reader_from START_FIELD [] (flds @ [f]) rest"
proof (cases "list_ex special f")
  case True
  then show ?thesis
    by (simp add: quote_field_def reader_quoted)
next
  case False
  show ?thesis
  proof (cases f)
    case Nil
    then show ?thesis by (simp add: quote_field_def)
  next
    case (Cons c cs)
    with False have "\<not> special c" "\<not> list_ex special cs" by simp_all
    then show ?thesis
      using reader_plain [of cs "[c]" flds "CHR '','' # rest"] Cons False
      by (simp add: quote_field_def special_def)
  qed
qed

lemma reader_field_cr:
  "csv_reader_from START_FIELD [] flds (quote_field f @ CHR 0x0D # CHR 0x0A # rest) =
   map_option (Cons (flds @ [f])) (csv_reader_from START_RECORD [] [] rest)"
proof (cases "list_ex special f")
  case True
  then show ?thesis
    by (simp add: quote_field_def reader_quoted)
next
  case False
  show ?thesis
  proof (cases f)
    case Nil
    then show ?thesis by (simp add: quote_field_def)
  next
    case (Cons c cs)
    with False have "\<not> special c" "\<not> list_ex special cs" by simp_all
    then show ?thesis
      using reader_plain [of cs "[c]" flds "CHR 0x0D # CHR 0x0A # rest"] Cons False
      by (simp add: quote_field_def special_def)
  qed
qed

lemma reader_join:
  "csv_reader_from START_FIELD [] flds (join_fields (f # fs) @ CHR 0x0D # CHR 0x0A # rest) =
   map_option (Cons (flds @ f # fs)) (csv_reader_from START_RECORD [] [] rest)"
proof (induction fs arbitrary: f flds)
  case Nil
  then show ?case by (simp add: reader_field_cr)
next
  case (Cons g gs)
  show ?case
    using Cons [of "flds @ [f]" g] by (simp add: reader_field_comma)
qed


lemma reader_writerow:
  "csv_reader_from START_RECORD [] [] (writerow row @ rest) =
   map_option (Cons row) (csv_reader_from START_RECORD [] [] rest)"
proof (cases row)
  case Nil
  then show ?thesis by (simp add: writerow_def)
next
  case row: (Cons f fs)
  show ?thesis
  proof (cases "row = [[]]")
    case True
    then show ?thesis by (simp add: writerow_def)
  next
    case False
    have out: "writerow row @ rest = join_fields (f # fs) @ CHR 0x0D # CHR 0x0A # rest"
      using False row by (auto simp: writerow_def)
    have "\<exists>c cs. join_fields (f # fs) = c # cs \<and> c \<noteq> CHR 0x0A \<and> c \<noteq> CHR 0x0D"
    proof (cases f)
      case Nil
      with False row obtain g gs where "fs = g # gs" by (cases fs) auto
      with Nil show ?thesis by (simp add: quote_field_def)
    next
      case (Cons d ds)
      then show ?thesis
        by (cases fs; cases "special d") (auto simp: quote_field_def special_def)
    qed
    then obtain c cs where first: "join_fields (f # fs) = c # cs" "c \<noteq> CHR 0x0A" "c \<noteq> CHR 0x0D"
      by blast
    have "csv_reader_from START_RECORD [] [] (c # cs @ CHR 0x0D # CHR 0x0A # rest) =
          csv_reader_from START_FIELD [] [] (c # cs @ CHR 0x0D # CHR 0x0A # rest)"
      using first(2,3) by simp
    then show ?thesis
      using reader_join [of "[]" f fs rest] first(1) out row by simp
  qed
qed

lemma reader_rows:
  "csv_reader_from START_RECORD [] [] (concat (map writerow rows)) = Some rows"
  by (induction rows) (simp_all add: reader_writerow)

lemma write_loop_eq:
  "write_loop fieldnames output outf =
   ([], outf @ concat (map (row_text fieldnames) (rev output)))"
proof (induction "output" arbitrary: outf rule: rev_induct)
  case Nil
  then show ?case by (simp add: write_loop.simps)
next
  case (snoc d ds)
  have "write_loop fieldnames (ds @ [d]) outf =
        write_loop fieldnames ds (outf @ row_text fieldnames d)"
    by (subst write_loop.simps) (simp add: row_text_def split: sum.split)
  then show ?case
    by (simp add: snoc)
qed

lemma row_text_field_mapping:
  assumes "field_mapping fieldnames d"
  shows "row_text fieldnames d = writerow (map (cell d) fieldnames)"
proof -
  have "\<not> list_ex (\<lambda>k. k \<notin> set fieldnames) (map fst d)"
    using assms by (simp add: field_mapping_def list_all_iff list_ex_iff)
  moreover have "render (case map_of d k of None \<Rightarrow> Some [] | Some v \<Rightarrow> v) = cell d k" for k
    by (simp add: cell_def split: option.split)
  ultimately show ?thesis
    by (simp add: row_text_def dict_to_list_def comp_def)
qed

lemma write_to_csv_text:
  assumes "list_all (field_mapping (map fst (TARGET_ELEMENTS E))) output"
  shows "write_to_csv E output =
    ([], concat (map writerow (map fst (TARGET_ELEMENTS E) #
           map (\<lambda>d. map (cell d) (map fst (TARGET_ELEMENTS E))) (rev output))))"
proof -
  let ?cols = "map fst (TARGET_ELEMENTS E)"
  have "map (row_text ?cols) (rev output) = map (\<lambda>d. writerow (map (cell d) ?cols)) (rev output)"
    using assms by (auto simp: list_all_iff row_text_field_mapping)
  then have rows: "concat (map (row_text ?cols) (rev output)) =
      concat (map writerow (map (\<lambda>d. map (cell d) ?cols) (rev output)))"
    by (simp only: map_map comp_def)
  show ?thesis
    unfolding write_to_csv_def write_loop_eq rows by simp
qed

lemma row_text_cases:
  "row_text fieldnames d =
     (if field_mapping fieldnames d then writerow (map (cell d) fieldnames) else [])"
proof (cases "field_mapping fieldnames d")
  case True
  then show ?thesis by (simp add: row_text_field_mapping)
next
  case False
  then have "list_ex (\<lambda>k. k \<notin> set fieldnames) (map fst d)"
    by (auto simp: field_mapping_def list_all_iff list_ex_iff)
  with False show ?thesis
    by (simp add: row_text_def dict_to_list_def)
qed

lemma rows_written:
  "concat (map (row_text fieldnames) ds) =
   concat (map writerow (map (\<lambda>d. map (cell d) fieldnames) (filter (field_mapping fieldnames) ds)))"
  by (induction ds) (simp_all add: row_text_cases)

lemma write_to_csv_rows:
  "write_to_csv E output =
    ([], concat (map writerow (map fst (TARGET_ELEMENTS E) #
           map (\<lambda>d. map (cell d) (map fst (TARGET_ELEMENTS E)))
             (filter (field_mapping (map fst (TARGET_ELEMENTS E))) (rev output)))))"
  by (simp add: write_to_csv_def write_loop_eq rows_written)

text \<open>
  C6. Serializing field mappings over the configured columns and reading the text back
  gives the header row and then one row per mapping, whose columns hold the mapping's
  values, the empty string for \<open>None\<close>. The rows come in the reverse of the input order,
  which the spec leaves free.
\<close>

theorem serialize_roundtrip:
  assumes "list_all (field_mapping (map fst (TARGET_ELEMENTS E))) output"
  shows "csv_reader (snd (write_to_csv E output)) =
     Some (map fst (TARGET_ELEMENTS E) #
           map (\<lambda>d. map (cell d) (map fst (TARGET_ELEMENTS E))) (rev output))"
  unfolding csv_reader_def write_to_csv_text [OF assms] snd_conv
  by (rule reader_rows)

theorem serialize_roundtrip_witness:
  "list_all (field_mapping (map fst (TARGET_ELEMENTS (sample_env [] [])))) sample_rows \<and>
   csv_reader (snd (write_to_csv (sample_env [] []) sample_rows)) =
     Some [[''Id'', ''Nm''], [''x'', ''y''], [''a,b'', '''']]"
proof -
  have h: "list_all (field_mapping (map fst (TARGET_ELEMENTS (sample_env [] [])))) sample_rows"
    by (simp add: sample_env_def sample_rows_def field_mapping_def)
  show ?thesis
    using h serialize_roundtrip [OF h]
    by (simp add: sample_env_def sample_rows_def cell_def)
qed

text \<open>
  C10. \<open>write_to_csv\<close> empties the list it is given, whatever it holds. Read back, the
  text it returns is the header row followed by the rows of the field mappings of the
  input (every key a configured column), last mapping first; a dict with another key
  raises in \<open>writerow\<close> and leaves no row. So for an input of \<open>n\<close> field mappings the text
  holds \<open>n\<close> data rows, and the \<open>i\<close>-th of them holds the values of the mapping at index
  \<open>n - 1 - i\<close> of the input.
\<close>

theorem write_to_csv_consumes_in_reverse:
  "fst (write_to_csv E output) = [] \<and>
   csv_reader (snd (write_to_csv E output)) =
     Some (map fst (TARGET_ELEMENTS E) #
           map (\<lambda>d. map (cell d) (map fst (TARGET_ELEMENTS E)))
             (filter (field_mapping (map fst (TARGET_ELEMENTS E))) (rev output))) \<and>
   (list_all (field_mapping (map fst (TARGET_ELEMENTS E))) output \<longrightarrow>
      (\<exists>rows. csv_reader (snd (write_to_csv E output)) = Some (map fst (TARGET_ELEMENTS E) # rows) \<and>
         length rows = length output \<and>
         (\<forall>i<length output.
            rows ! i = map (cell (output ! (length output - 1 - i))) (map fst (TARGET_ELEMENTS E)))))"
proof -
  let ?cols = "map fst (TARGET_ELEMENTS E)"
  let ?rows = "map (\<lambda>d. map (cell d) ?cols) (filter (field_mapping ?cols) (rev output))"
  have emptied: "fst (write_to_csv E output) = []"
    by (simp add: write_to_csv_rows)
  have parsed: "csv_reader (snd (write_to_csv E output)) = Some (?cols # ?rows)"
    unfolding csv_reader_def write_to_csv_rows snd_conv by (rule reader_rows)
  have indexed: "\<exists>rows. csv_reader (snd (write_to_csv E output)) = Some (?cols # rows) \<and>
         length rows = length output \<and>
         (\<forall>i<length output. rows ! i = map (cell (output ! (length output - 1 - i))) ?cols)"
    if ok: "list_all (field_mapping ?cols) output"
  proof -
    have all: "filter (field_mapping ?cols) (rev output) = rev output"
      using ok by (simp add: list_all_iff)
    have "?rows ! i = map (cell (output ! (length output - 1 - i))) ?cols"
      if "i < length output" for i
      using that by (simp add: all rev_nth)
    moreover have "length ?rows = length output"
      by (simp add: all)
    ultimately show ?thesis
      using parsed by blast
  qed
  from emptied parsed indexed show ?thesis
    by blast
qed

theorem write_to_csv_consumes_in_reverse_witness:
  "list_all (field_mapping (map fst (TARGET_ELEMENTS (sample_env [] [])))) sample_rows \<and>
   fst (write_to_csv (sample_env [] []) sample_rows) = [] \<and>
   snd (write_to_csv (sample_env [] []) sample_rows) =
     ''Id,Nm'' @ [CHR 0x0D, CHR 0x0A] @ ''x,y'' @ [CHR 0x0D, CHR 0x0A] @
     [CHR 0x22] @ ''a,b'' @ [CHR 0x22] @ '','' @ [CHR 0x0D, CHR 0x0A] \<and>
   csv_reader (snd (write_to_csv (sample_env [] []) sample_rows)) =
     Some [[''Id'', ''Nm''], [''x'', ''y''], [''a,b'', []]] \<and>
   (\<exists>rows. csv_reader (snd (write_to_csv (sample_env [] []) sample_rows)) =
        Some ([''Id'', ''Nm''] # rows) \<and>
      length rows = 2 \<and> rows ! 0 = [''x'', ''y''] \<and> rows ! 1 = [''a,b'', []])"
proof -
  let ?E = "sample_env [] []"
  note inst = write_to_csv_consumes_in_reverse [of ?E sample_rows]
  have h: "list_all (field_mapping (map fst (TARGET_ELEMENTS ?E))) sample_rows"
    by (simp add: sample_env_def sample_rows_def field_mapping_def)
  have cols: "map fst (TARGET_ELEMENTS ?E) = [''Id'', ''Nm'']"
    by (simp add: sample_env_def)
  have n: "length sample_rows = 2"
    by (simp add: sample_rows_def)
  have cells: "cell (sample_rows ! Suc 0) ''Id'' = ''x''" "cell (sample_rows ! Suc 0) ''Nm'' = ''y''"
    "cell (sample_rows ! 0) ''Id'' = ''a,b''" "cell (sample_rows ! 0) ''Nm'' = []"
    by (simp_all add: sample_rows_def cell_def)
  from inst have emptied: "fst (write_to_csv ?E sample_rows) = []"
    by blast
  have written: "snd (write_to_csv ?E sample_rows) =
     ''Id,Nm'' @ [CHR 0x0D, CHR 0x0A] @ ''x,y'' @ [CHR 0x0D, CHR 0x0A] @
     [CHR 0x22] @ ''a,b'' @ [CHR 0x22] @ '','' @ [CHR 0x0D, CHR 0x0A]"
    by code_simp
  from inst h obtain rows
    where rows: "csv_reader (snd (write_to_csv ?E sample_rows)) = Some (map fst (TARGET_ELEMENTS ?E) # rows)"
      "length rows = length sample_rows"
      "\<forall>i<length sample_rows. rows ! i =
         map (cell (sample_rows ! (length sample_rows - 1 - i))) (map fst (TARGET_ELEMENTS ?E))"
    by blast
  from rows(3) have "rows ! 0 = [''x'', ''y'']" "rows ! 1 = [''a,b'', []]"
    by (simp_all add: n cols cells)
  with rows(1,2) have indexed: "\<exists>rows. csv_reader (snd (write_to_csv ?E sample_rows)) =
        Some ([''Id'', ''Nm''] # rows) \<and>
      length rows = 2 \<and> rows ! 0 = [''x'', ''y''] \<and> rows ! 1 = [''a,b'', []]"
    by (simp add: n cols)
  from inst have "csv_reader (snd (write_to_csv ?E sample_rows)) =
     Some (map fst (TARGET_ELEMENTS ?E) #
           map (\<lambda>d. map (cell d) (map fst (TARGET_ELEMENTS ?E)))
             (filter (field_mapping (map fst (TARGET_ELEMENTS ?E))) (rev sample_rows)))"
    by blast
  then have parsed: "csv_reader (snd (write_to_csv ?E sample_rows)) =
     Some [[''Id'', ''Nm''], [''x'', ''y''], [''a,b'', []]]"
    by (simp add: cols sample_rows_def field_mapping_def cell_def)
  from h emptied written parsed indexed show ?thesis
    by (intro conjI)
qed

section \<open>Selection\<close>

lemma entry_valid_views:
  assumes "entry_valid doc"
  shows "entry_date doc = Inr (date_of doc)" and "entry_link doc = Inr (Some (link_of doc))"
  using assms
  by (auto simp: entry_valid_def date_of_def link_of_def split: sum.splits option.splits)

lemma select_loop_valid:
  assumes "list_all entry_valid docs"
  shows "(list_all (\<lambda>d. \<not> int_less (date_of d) min_date) docs \<and>
            select_loop docs min_date target = Inr target) \<or>
         (\<exists>pre d post. docs = pre @ d # post \<and> int_less (date_of d) min_date \<and>
            (\<forall>x\<in>set pre. date_of d < date_of x) \<and> (\<forall>x\<in>set post. date_of d \<le> date_of x) \<and>
            select_loop docs min_date target = Inr (Some (link_of d)))"
  using assms
proof (induction docs arbitrary: min_date target)
  case Nil
  then show ?case by simp
next
  case (Cons doc docs)
  then have valid: "entry_valid doc" and rest: "list_all entry_valid docs"
    by simp_all
  note views = entry_valid_views [OF valid]
  show ?case
  proof (cases "int_less (date_of doc) min_date")
    case True
    then have step: "select_loop (doc # docs) min_date target =
        select_loop docs (PyInt (date_of doc)) (Some (link_of doc))"
      by (simp add: views)
    from Cons.IH [OF rest, of "PyInt (date_of doc)" "Some (link_of doc)"]
    show ?thesis
    proof (elim disjE conjE exE)
      assume none: "list_all (\<lambda>d. \<not> int_less (date_of d) (PyInt (date_of doc))) docs"
        and res: "select_loop docs (PyInt (date_of doc)) (Some (link_of doc)) = Inr (Some (link_of doc))"
      have "doc # docs = [] @ doc # docs \<and> int_less (date_of doc) min_date \<and>
            (\<forall>x\<in>set []. date_of doc < date_of x) \<and> (\<forall>x\<in>set docs. date_of doc \<le> date_of x) \<and>
            select_loop (doc # docs) min_date target = Inr (Some (link_of doc))"
        using none res True step by (auto simp: list_all_iff)
      then show ?thesis by blast
    next
      fix pre d post
      assume split: "docs = pre @ d # post"
        and less: "int_less (date_of d) (PyInt (date_of doc))"
        and before: "\<forall>x\<in>set pre. date_of d < date_of x"
        and after: "\<forall>x\<in>set post. date_of d \<le> date_of x"
        and res: "select_loop docs (PyInt (date_of doc)) (Some (link_of doc)) = Inr (Some (link_of d))"
      have "int_less (date_of d) min_date"
        using less True by (cases min_date) auto
      then have "doc # docs = (doc # pre) @ d # post \<and> int_less (date_of d) min_date \<and>
            (\<forall>x\<in>set (doc # pre). date_of d < date_of x) \<and> (\<forall>x\<in>set post. date_of d \<le> date_of x) \<and>
            select_loop (doc # docs) min_date target = Inr (Some (link_of d))"
        using split less before after res step by auto
      then show ?thesis by blast
    qed
  next
    case False
    then have step: "select_loop (doc # docs) min_date target = select_loop docs min_date target"
      by (simp add: views)
    from Cons.IH [OF rest, of min_date target]
    show ?thesis
    proof (elim disjE conjE exE)
      assume "list_all (\<lambda>d. \<not> int_less (date_of d) min_date) docs"
        and "select_loop docs min_date target = Inr target"
      then show ?thesis using False step by simp
    next
      fix pre d post
      assume split: "docs = pre @ d # post"
        and less: "int_less (date_of d) min_date"
        and before: "\<forall>x\<in>set pre. date_of d < date_of x"
        and after: "\<forall>x\<in>set post. date_of d \<le> date_of x"
        and res: "select_loop docs min_date target = Inr (Some (link_of d))"
      have "date_of d < date_of doc"
        using less False by (cases min_date) auto
      then have "doc # docs = (doc # pre) @ d # post \<and> int_less (date_of d) min_date \<and>
            (\<forall>x\<in>set (doc # pre). date_of d < date_of x) \<and> (\<forall>x\<in>set post. date_of d \<le> date_of x) \<and>
            select_loop (doc # docs) min_date target = Inr (Some (link_of d))"
        using split less before after res step by auto
      then show ?thesis by blast
    qed
  qed
qed

lemma get_latest_file_response:
  assumes "http_get E (gets tr) (URL E) = Some r" and "xml_parse E (resp_text r) = Some tree"
  shows "get_latest_file E retry tr = (selectLatest tree, tr @ [Get (URL E)])"
  using assms by (subst get_latest_file.simps) simp


text \<open>
  C3, as the code has it. The spec asks for a feed with at least one valid entry. In
  the code every entry of the feed must be valid: the loop has no handler, so an entry
  whose date token \<open>int\<close> rejects (or whose file name is outside the grammar) ends the
  selection with its exception. In the feed below the first entry is valid and has the
  only date, and no link is returned.
\<close>

theorem invalid_entry_blocks_minimum:
  "entry_valid (feed_doc ''DLTINS_20230101_01of01.zip'' ''http://a'') \<and>
   re_match_date ''DLTINS_2023-01-02_01of01.zip'' = Some ''2023-01-02'' \<and>
   py_int ''2023-01-02'' = None \<and>
   xml_parse (sample_env [Some (feed_response dashed_feed_text)] []) dashed_feed_text =
     Some (feed dashed_docs) \<and>
   get_latest_file (sample_env [Some (feed_response dashed_feed_text)] []) False [] =
     (Inl ValueError, [Get ''http://registry''])"
  by code_simp

text \<open>
  C3 amended. When the feed document has at least one entry and every entry is valid
  (a file name in the grammar whose date token \<open>int\<close> accepts, and a download link that is
  a string), \<open>get_latest_file\<close> returns the download link of an entry \<open>d\<close> whose date is
  the minimum over all entries; every entry before \<open>d\<close> in document order has a strictly
  larger date, so among entries with the minimal date the first one is chosen.
\<close>

theorem get_latest_file_minimum:
  assumes "http_get E (gets tr) (URL E) = Some r"
    and "xml_parse E (resp_text r) = Some tree"
    and "docs = findall_desc ''doc'' tree"
    and "docs \<noteq> []"
    and "list_all entry_valid docs"
  shows "\<exists>pre d post. docs = pre @ d # post \<and>
           (\<forall>x\<in>set pre. date_of d < date_of x) \<and>
           (\<forall>x\<in>set post. date_of d \<le> date_of x) \<and>
           date_of d = Min (date_of ` set docs) \<and>
           get_latest_file E retry tr = (Inr (Some (link_of d)), tr @ [Get (URL E)])"
proof -
  have "\<not> list_all (\<lambda>d. \<not> int_less (date_of d) PosInf) docs"
    using assms(4) by (cases docs) simp_all
  with select_loop_valid [OF assms(5), of PosInf None]
  obtain pre d post where split: "docs = pre @ d # post"
    and before: "\<forall>x\<in>set pre. date_of d < date_of x"
    and after: "\<forall>x\<in>set post. date_of d \<le> date_of x"
    and res: "select_loop docs PosInf None = Inr (Some (link_of d))"
    by blast
  have "date_of d \<in> date_of ` set docs"
    using split by simp
  moreover have "date_of d \<le> y" if "y \<in> date_of ` set docs" for y
    using that split before after by auto
  ultimately have "Min (date_of ` set docs) = date_of d"
    by (intro Min_eqI) auto
  moreover have "get_latest_file E retry tr = (Inr (Some (link_of d)), tr @ [Get (URL E)])"
    using get_latest_file_response [OF assms(1,2)] res assms(3)
    by (simp add: selectLatest_def)
  ultimately show ?thesis
    using split before after by metis
qed

text \<open>The spec's scenario: of the entries dated 20230102 and 20230101 the second is chosen.\<close>

theorem get_latest_file_minimum_witness:
  "http_get (sample_env [Some (feed_response sample_feed_text)] [])
      (gets []) (URL (sample_env [Some (feed_response sample_feed_text)] [])) =
     Some (feed_response sample_feed_text) \<and>
   xml_parse (sample_env [Some (feed_response sample_feed_text)] [])
      (resp_text (feed_response sample_feed_text)) = Some (feed sample_docs) \<and>
   sample_docs = findall_desc ''doc'' (feed sample_docs) \<and>
   sample_docs \<noteq> [] \<and>
   list_all entry_valid sample_docs \<and>
   map date_of sample_docs = [20230102, 20230101] \<and>
   get_latest_file (sample_env [Some (feed_response sample_feed_text)] []) False [] =
     (Inr (Some ''http://a''), [Get ''http://registry''])"
proof -
  let ?E = "sample_env [Some (feed_response sample_feed_text)] []"
  have h1: "http_get ?E (gets []) (URL ?E) = Some (feed_response sample_feed_text)"
    by (simp add: sample_env_def gets_def)
  have h2: "xml_parse ?E (resp_text (feed_response sample_feed_text)) = Some (feed sample_docs)"
    by (simp add: sample_env_def sample_parse_def feed_response_def sample_feed_text_def
        mixed_feed_text_def dashed_feed_text_def empty_feed_text_def)
  have h3: "sample_docs = findall_desc ''doc'' (feed sample_docs)"
    by (simp add: sample_docs_def feed_def feed_doc_def findall_desc_def)
  have h4: "sample_docs \<noteq> []"
    by (simp add: sample_docs_def)
  have dates: "entry_date (feed_doc ''DLTINS_20230102_01of01.zip'' ''http://b'') = Inr 20230102"
       "entry_date (feed_doc ''DLTINS_20230101_01of01.zip'' ''http://a'') = Inr 20230101"
    by code_simp+
  have links: "entry_link (feed_doc ''DLTINS_20230102_01of01.zip'' ''http://b'') = Inr (Some ''http://b'')"
       "entry_link (feed_doc ''DLTINS_20230101_01of01.zip'' ''http://a'') = Inr (Some ''http://a'')"
    by code_simp+
  have h5: "list_all entry_valid sample_docs"
    by (simp add: sample_docs_def entry_valid_def dates links)
  have d: "map date_of sample_docs = [20230102, 20230101]"
    by (simp add: sample_docs_def date_of_def dates)
  from get_latest_file_minimum [OF h1 h2 h3 h4 h5, of False]
  obtain pre x post where split: "sample_docs = pre @ x # post"
    and before: "\<forall>y\<in>set pre. date_of x < date_of y"
    and after: "\<forall>y\<in>set post. date_of x \<le> date_of y"
    and res: "get_latest_file ?E False [] = (Inr (Some (link_of x)), [] @ [Get (URL ?E)])"
    by blast
  have "x = feed_doc ''DLTINS_20230101_01of01.zip'' ''http://a''"
  proof (cases pre)
    case Nil
    with split after d show ?thesis
      by (auto simp: sample_docs_def date_of_def dates)
  next
    case (Cons p ps)
    with split show ?thesis
      by (cases ps) (auto simp: sample_docs_def)
  qed
  then have "get_latest_file ?E False [] = (Inr (Some ''http://a''), [Get ''http://registry''])"
    using res by (simp add: link_of_def links sample_env_def)
  with h1 h2 h3 h4 h5 d show ?thesis by blast
qed




text \<open>
  C8. For a feed document without entries \<open>get_latest_file\<close> returns \<open>None\<close>, no
  exception, and \<open>put_first_firds_file_in_s3\<close> returns at its first \<open>return\<close>: the archive
  is not fetched and nothing is written.
\<close>

theorem empty_feed_returns_none:
  assumes "http_get E (gets tr) (URL E) = Some r"
    and "xml_parse E (resp_text r) = Some tree"
    and "findall_desc ''doc'' tree = []"
  shows "get_latest_file E retry tr = (Inr None, tr @ [Get (URL E)]) \<and>
         put_first_firds_file_in_s3 E bucket tr = (Inr NoTarget, tr @ [Get (URL E)])"
  using assms(3)
  by (simp add: get_latest_file_response [OF assms(1,2)] selectLatest_def
      put_first_firds_file_in_s3_def)

theorem empty_feed_returns_none_witness:
  "http_get (sample_env [Some (feed_response empty_feed_text)] [])
      (gets []) (URL (sample_env [Some (feed_response empty_feed_text)] [])) =
     Some (feed_response empty_feed_text) \<and>
   xml_parse (sample_env [Some (feed_response empty_feed_text)] [])
      (resp_text (feed_response empty_feed_text)) = Some (feed []) \<and>
   findall_desc ''doc'' (feed []) = [] \<and>
   get_latest_file (sample_env [Some (feed_response empty_feed_text)] []) False [] =
     (Inr None, [Get ''http://registry'']) \<and>
   put_first_firds_file_in_s3 (sample_env [Some (feed_response empty_feed_text)] []) ''bucket'' [] =
     (Inr NoTarget, [Get ''http://registry''])"
proof -
  let ?E = "sample_env [Some (feed_response empty_feed_text)] []"
  have h1: "http_get ?E (gets []) (URL ?E) = Some (feed_response empty_feed_text)"
    by (simp add: sample_env_def gets_def)
  have h2: "xml_parse ?E (resp_text (feed_response empty_feed_text)) = Some (feed [])"
    by (simp add: sample_env_def sample_parse_def feed_response_def empty_feed_text_def)
  have h3: "findall_desc ''doc'' (feed []) = []"
    by (simp add: feed_def findall_desc_def)
  have "URL ?E = ''http://registry''"
    by (simp add: sample_env_def)
  with empty_feed_returns_none [OF h1 h2 h3, of False "''bucket''"] h1 h2 h3
  show ?thesis by simp
qed

section \<open>Extraction\<close>

lemma project_found:
  assumes "list_all (\<lambda>(alias, element). el_find E element tree \<noteq> None) items"
  shows "project E items tree =
     Inr (map (\<lambda>(alias, element).
            (alias, case el_find E element tree of None \<Rightarrow> None | Some e \<Rightarrow> el_text e)) items)"
  using assms
proof (induction items)
  case Nil
  then show ?case by simp
next
  case (Cons item items)
  obtain a p where item: "item = (a, p)"
    by (cases item)
  with Cons.prems obtain e where e: "el_find E p tree = Some e"
    by auto
  from Cons have "project E items tree =
     Inr (map (\<lambda>(alias, element).
            (alias, case el_find E element tree of None \<Rightarrow> None | Some e \<Rightarrow> el_text e)) items)"
    by simp
  then show ?case
    using item e by simp
qed

lemma project_not_found:
  assumes "(alias, element) \<in> set items" and "el_find E element tree = None"
  shows "project E items tree = Inl AttributeError"
  using assms
proof (induction items)
  case Nil
  then show ?case by simp
next
  case (Cons item items)
  obtain a p where item: "item = (a, p)"
    by (cases item)
  show ?case
  proof (cases "el_find E p tree")
    case None
    then show ?thesis by (simp add: item)
  next
    case (Some e)
    with Cons.prems item have "(alias, element) \<in> set items" by auto
    from Cons.IH [OF this Cons.prems(2)] Some show ?thesis
      by (simp add: item)
  qed
qed

lemma project_keys:
  "project E items tree = Inr d \<Longrightarrow> map fst d = map fst items"
proof (induction items arbitrary: d)
  case Nil
  then show ?case by simp
next
  case (Cons item items)
  obtain a p where item: "item = (a, p)"
    by (cases item)
  from Cons.prems show ?case
    by (auto simp: item dest: Cons.IH split: option.splits sum.splits)
qed

lemma project_all_found:
  assumes "project E items tree = Inr d"
  shows "list_all (\<lambda>(alias, element). el_find E element tree \<noteq> None) items"
proof (rule ccontr)
  assume "\<not> ?thesis"
  then obtain a p where "(a, p) \<in> set items" "el_find E p tree = None"
    by (auto simp: list_all_iff)
  from project_not_found [OF this] assms show False by simp
qed

lemma records_well_formed:
  assumes "list_all (well_formed E) records"
  shows "\<exists>ds. get_data_records E records output = Inr (output @ ds) \<and> length ds = length records"
  using assms
proof (induction records arbitrary: "output" rule: rev_induct)
  case Nil
  then show ?case by (simp add: get_data_records.simps)
next
  case (snoc f fs)
  then have "well_formed E f" and rest: "list_all (well_formed E) fs"
    by simp_all
  then obtain tree where tree: "xml_parse E f = Some tree"
    and found: "list_all (\<lambda>(alias, element). el_find E element tree \<noteq> None) (TARGET_ELEMENTS E)"
    by (auto simp: well_formed_def split: option.splits)
  from project_found [OF found] obtain d where d: "project E (TARGET_ELEMENTS E) tree = Inr d"
    by simp
  from snoc.IH [OF rest, of "output @ [d]"] obtain ds
    where ds: "get_data_records E fs (output @ [d]) = Inr ((output @ [d]) @ ds)" "length ds = length fs"
    by blast
  have "get_data_records E (fs @ [f]) output = Inr (output @ d # ds)"
    by (subst get_data_records.simps) (simp add: tree d ds)
  then show ?case
    using ds(2) by (intro exI [of _ "d # ds"]) simp
qed

lemma records_malformed:
  assumes "f \<in> set records" and "\<not> well_formed E f"
  shows "\<exists>e. get_data_records E records output = Inl e"
  using assms
proof (induction records arbitrary: "output" rule: rev_induct)
  case Nil
  then show ?case by simp
next
  case (snoc g gs)
  show ?case
  proof (cases "xml_parse E g")
    case None
    then show ?thesis
      by (subst get_data_records.simps) simp
  next
    case (Some tree)
    show ?thesis
    proof (cases "project E (TARGET_ELEMENTS E) tree")
      case (Inl e)
      with Some show ?thesis
        by (subst get_data_records.simps) simp
    next
      case (Inr d)
      have "list_all (\<lambda>(alias, element). el_find E element tree \<noteq> None) (TARGET_ELEMENTS E)"
        using Inr by (rule project_all_found)
      with Some have "well_formed E g"
        by (simp add: well_formed_def)
      with snoc.prems have "f \<in> set gs" by auto
      from snoc.IH [OF this snoc.prems(2), of "output @ [d]"] Some Inr show ?thesis
        by (subst get_data_records.simps) simp
    qed
  qed
qed

lemma records_parse_error:
  assumes "records = fs @ f # gs" and "xml_parse E f = None" and "list_all (well_formed E) gs"
  shows "get_data_records E records output = Inl ParseError"
  using assms(3,1)
proof (induction gs arbitrary: "output" records rule: rev_induct)
  case Nil
  then show ?case
    by (subst get_data_records.simps) (simp add: assms(2))
next
  case (snoc g gs)
  then have "well_formed E g" and rest: "list_all (well_formed E) gs"
    by simp_all
  then obtain tree where tree: "xml_parse E g = Some tree"
    and found: "list_all (\<lambda>(alias, element). el_find E element tree \<noteq> None) (TARGET_ELEMENTS E)"
    by (auto simp: well_formed_def split: option.splits)
  from project_found [OF found] obtain d where d: "project E (TARGET_ELEMENTS E) tree = Inr d"
    by simp
  have "records = (fs @ f # gs) @ [g]"
    using snoc.prems by simp
  then have "get_data_records E records output = get_data_records E (fs @ f # gs) (output @ [d])"
    by (subst get_data_records.simps) (simp add: tree d del: append_assoc)
  with snoc.IH [OF rest refl, of "output @ [d]"] show ?case by simp
qed

lemma files_ok:
  assumes "list_all (member_ok E) files"
  shows "\<exists>ds. get_data_files E files output = Inr (output @ ds) \<and>
     length ds = sum_list (map (n_fragments E) files)"
  using assms
proof (induction files arbitrary: "output")
  case Nil
  then show ?case by simp
next
  case (Cons m ms)
  then have "member_ok E m" and rest: "list_all (member_ok E) ms"
    by simp_all
  then obtain bytes x where m: "payload m = Some bytes" "u8_decode E bytes = Some x"
    and wf: "list_all (well_formed E) (findall_records x)"
    by (auto simp: member_ok_def fragments_def split: option.splits)
  then have n: "n_fragments E m = length (findall_records x)"
    by (simp add: n_fragments_def fragments_def)
  from records_well_formed [OF wf, of "output"] obtain ds
    where ds: "get_data_records E (findall_records x) output = Inr (output @ ds)"
      "length ds = length (findall_records x)"
    by blast
  from Cons.IH [OF rest, of "output @ ds"] obtain ds'
    where ds': "get_data_files E ms (output @ ds) = Inr ((output @ ds) @ ds')"
      "length ds' = sum_list (map (n_fragments E) ms)"
    by blast
  show ?case
    using m ds ds' n by (intro exI [of _ "ds @ ds'"]) simp
qed

lemma files_malformed:
  assumes "file \<in> set files" and "fragments E file = Some frs"
    and "f \<in> set frs" and "\<not> well_formed E f"
  shows "\<exists>e. get_data_files E files output = Inl e"
  using assms(1)
proof (induction files arbitrary: "output")
  case Nil
  then show ?case by simp
next
  case (Cons g gs)
  show ?case
  proof (cases "g = file")
    case True
    from assms(2) obtain bytes x where m: "payload file = Some bytes" "u8_decode E bytes = Some x"
      "frs = findall_records x"
      by (auto simp: fragments_def split: option.splits)
    from records_malformed [OF assms(3) assms(4), of "output"] m(3)
    obtain e where "get_data_records E (findall_records x) output = Inl e"
      by blast
    with True m show ?thesis by simp
  next
    case False
    with Cons.prems have "file \<in> set gs" by simp
    from Cons.IH [OF this] show ?thesis
      by (auto split: option.splits sum.splits)
  qed
qed

lemma files_parse_error:
  assumes "list_all (member_ok E) before"
    and "fragments E member = Some (fs @ f # gs)"
    and "xml_parse E f = None"
    and "list_all (well_formed E) gs"
  shows "get_data_files E (before @ member # after) output = Inl ParseError"
  using assms(1)
proof (induction before arbitrary: "output")
  case Nil
  from assms(2) obtain bytes x where m: "payload member = Some bytes" "u8_decode E bytes = Some x"
    "findall_records x = fs @ f # gs"
    by (auto simp: fragments_def split: option.splits)
  from records_parse_error [OF m(3) assms(3,4)] m(1,2) show ?case
    by simp
next
  case (Cons m ms)
  then have "member_ok E m" and rest: "list_all (member_ok E) ms"
    by simp_all
  then obtain bytes x where m: "payload m = Some bytes" "u8_decode E bytes = Some x"
    and wf: "list_all (well_formed E) (findall_records x)"
    by (auto simp: member_ok_def fragments_def split: option.splits)
  from records_well_formed [OF wf, of "output"] obtain ds
    where ds: "get_data_records E (findall_records x) output = Inr (output @ ds)"
    by blast
  from Cons.IH [OF rest, of "output @ ds"] m ds show ?case
    by simp
qed


lemma find_member:
  "find P xs = Some x \<Longrightarrow> x \<in> set xs \<and> P x"
  by (induction xs) (auto split: if_splits)

lemma getinfo_Some:
  "getinfo filelist name = Some m \<Longrightarrow> m \<in> set filelist \<and> filename m = name"
  using find_member [of "\<lambda>m. filename m = name" "rev filelist" m]
  by (simp add: getinfo_def)



lemma testzip_from_readable:
  assumes "list_all (\<lambda>m. payload m \<noteq> None) filelist"
  shows "testzip_from filelist members = None"
proof (induction members)
  case Nil
  then show ?case by simp
next
  case (Cons zinfo rest)
  show ?case
  proof (cases "getinfo filelist (filename zinfo)")
    case None
    with Cons show ?thesis by simp
  next
    case (Some m)
    from getinfo_Some [OF Some] assms have "payload m \<noteq> None"
      by (auto simp: list_all_iff)
    with Cons Some show ?thesis by auto
  qed
qed

lemma testzip_ok:
  assumes "list_all (member_ok E) files"
  shows "testzip files = None"
proof -
  have "list_all (\<lambda>m. payload m \<noteq> None) files"
    using assms by (auto simp: list_all_iff member_ok_def fragments_def split: option.splits)
  then show ?thesis
    unfolding testzip_def by (rule testzip_from_readable)
qed

lemma get_data_response:
  assumes "http_get E (gets tr) target = Some r" and "zip_open E (resp_content r) = Some filelist"
  shows "get_data E target retry tr =
    (if truthy (testzip filelist) then Inl SystemExit
     else (case get_data_files E filelist [] of
             Inl e \<Rightarrow> Inl e
           | Inr output \<Rightarrow>
               if filelist = [] then Inl UnboundLocalError
               else Inr (output, filename (last filelist))),
     tr @ [Get target])"
  using assms by (subst get_data.simps) (simp split: sum.split)

lemma get_data_well_formed:
  assumes "http_get E (gets tr) target = Some r" and "zip_open E (resp_content r) = Some filelist"
    and "filelist \<noteq> []" and "list_all (member_ok E) filelist"
  shows "\<exists>output. get_data E target retry tr =
           (Inr (output, filename (last filelist)), tr @ [Get target]) \<and>
         length output = sum_list (map (n_fragments E) filelist)"
proof -
  from files_ok [OF assms(4), of "[]"] obtain ds
    where "get_data_files E filelist [] = Inr ds" "length ds = sum_list (map (n_fragments E) filelist)"
    by auto
  then show ?thesis
    using assms(3) testzip_ok [OF assms(4)]
    by (simp add: get_data_response [OF assms(1,2)])
qed

lemma gets_retry: "gets (tr @ [Get u, Sleep n]) = Suc (gets tr)"
  by (simp add: gets_def)

text \<open>
  C1, as the code has it. The spec maps a field whose path is not found to \<open>None\<close>. In
  the code \<open>tree.find(element)\<close> is \<open>None\<close> for such a path and \<open>.text\<close> raises
  \<open>AttributeError\<close>, which nothing in \<open>get_data\<close> catches: for a fragment without \<open>Nm\<close>
  the projection, and with it \<open>get_data\<close>, fails.
\<close>

theorem missing_path_raises:
  "xml_parse (sample_env [Some (archive_response ''missing'')] sample_zips) frag_C = Some tree_C \<and>
   el_find (sample_env [Some (archive_response ''missing'')] sample_zips) ''Nm'' tree_C = None \<and>
   project (sample_env [Some (archive_response ''missing'')] sample_zips)
     (TARGET_ELEMENTS (sample_env [Some (archive_response ''missing'')] sample_zips)) tree_C =
     Inl AttributeError \<and>
   get_data (sample_env [Some (archive_response ''missing'')] sample_zips) ''http://a'' False [] =
     (Inl AttributeError, [Get ''http://a''])"
  by code_simp

text \<open>
  C1 amended: a projection that returns has exactly the configured aliases as its keys;
  when every configured path is found in the fragment the projection returns, and maps
  each alias to the text of the element found (\<open>None\<close> for an element without text);
  when a configured path is not found the projection raises \<open>AttributeError\<close>.
\<close>

theorem project_field_mapping:
  "(project E (TARGET_ELEMENTS E) tree = Inr d \<longrightarrow>
      set (map fst d) = set (map fst (TARGET_ELEMENTS E))) \<and>
   (list_all (\<lambda>(alias, element). el_find E element tree \<noteq> None) (TARGET_ELEMENTS E) \<longrightarrow>
      project E (TARGET_ELEMENTS E) tree =
        Inr (map (\<lambda>(alias, element).
               (alias, case el_find E element tree of None \<Rightarrow> None | Some e \<Rightarrow> el_text e))
             (TARGET_ELEMENTS E))) \<and>
   ((a, p) \<in> set (TARGET_ELEMENTS E) \<and> el_find E p tree = None \<longrightarrow>
      project E (TARGET_ELEMENTS E) tree = Inl AttributeError)"
proof (intro conjI impI)
  assume "project E (TARGET_ELEMENTS E) tree = Inr d"
  then show "set (map fst d) = set (map fst (TARGET_ELEMENTS E))"
    by (simp add: project_keys)
next
  assume "list_all (\<lambda>(alias, element). el_find E element tree \<noteq> None) (TARGET_ELEMENTS E)"
  then show "project E (TARGET_ELEMENTS E) tree =
        Inr (map (\<lambda>(alias, element).
               (alias, case el_find E element tree of None \<Rightarrow> None | Some e \<Rightarrow> el_text e))
             (TARGET_ELEMENTS E))"
    by (rule project_found)
next
  assume "(a, p) \<in> set (TARGET_ELEMENTS E) \<and> el_find E p tree = None"
  then show "project E (TARGET_ELEMENTS E) tree = Inl AttributeError"
    using project_not_found by blast
qed

theorem project_field_mapping_witness:
  "project (sample_env [] []) (TARGET_ELEMENTS (sample_env [] [])) tree_B =
     Inr [(''Id'', Some ''B''), (''Nm'', None)] \<and>
   set (map fst [(''Id'', Some ''B''), (''Nm'', None :: string option)]) =
     set (map fst (TARGET_ELEMENTS (sample_env [] []))) \<and>
   list_all (\<lambda>(alias, element). el_find (sample_env [] []) element tree_B \<noteq> None)
     (TARGET_ELEMENTS (sample_env [] [])) \<and>
   (''Nm'', ''Nm'') \<in> set (TARGET_ELEMENTS (sample_env [] [])) \<and>
   el_find (sample_env [] []) ''Nm'' tree_C = None \<and>
   project (sample_env [] []) (TARGET_ELEMENTS (sample_env [] [])) tree_C = Inl AttributeError"
proof -
  let ?E = "sample_env [] []"
  have found: "list_all (\<lambda>(alias, element). el_find ?E element tree_B \<noteq> None) (TARGET_ELEMENTS ?E)"
    by (simp add: sample_env_def find_child_def tree_B_def)
  have vals: "map (\<lambda>(alias, element).
               (alias, case el_find ?E element tree_B of None \<Rightarrow> None | Some e \<Rightarrow> el_text e))
             (TARGET_ELEMENTS ?E) = [(''Id'', Some ''B''), (''Nm'', None)]"
    by (simp add: sample_env_def find_child_def tree_B_def)
  have listed: "(''Nm'', ''Nm'') \<in> set (TARGET_ELEMENTS ?E)"
    by (simp add: sample_env_def)
  have absent: "el_find ?E ''Nm'' tree_C = None"
    by (simp add: sample_env_def find_child_def tree_C_def)
  note thm_B = project_field_mapping [of ?E tree_B "[(''Id'', Some ''B''), (''Nm'', None)]" "''Nm''" "''Nm''"]
  note thm_C = project_field_mapping [of ?E tree_C "[]" "''Nm''" "''Nm''"]
  have res_B: "project ?E (TARGET_ELEMENTS ?E) tree_B = Inr [(''Id'', Some ''B''), (''Nm'', None)]"
    using thm_B found vals by simp
  then have keys: "set (map fst [(''Id'', Some ''B''), (''Nm'', None :: string option)]) =
     set (map fst (TARGET_ELEMENTS ?E))"
    using thm_B by blast
  have res_C: "project ?E (TARGET_ELEMENTS ?E) tree_C = Inl AttributeError"
    using thm_C listed absent by blast
  from res_B keys found listed absent res_C show ?thesis
    by (intro conjI)
qed

text \<open>
  C2, as the code has it. The spec skips a malformed fragment and keeps the mappings
  of the others. In the code \<open>ElementTree.parse\<close> raises \<open>ParseError\<close> on such a fragment
  and the record loop has no handler: the archive member below holds one well-formed
  fragment and one malformed, and \<open>get_data\<close> raises instead of returning one mapping.
\<close>

theorem malformed_fragment_aborts:
  "fragments (sample_env [Some (archive_response ''malformed'')] sample_zips)
     \<lparr> filename = ''a.xml'', payload = Some (''<Doc>'' @ frag_A @ frag_bad @ ''</Doc>'') \<rparr> =
     Some [frag_A, frag_bad] \<and>
   well_formed (sample_env [Some (archive_response ''malformed'')] sample_zips) frag_A \<and>
   xml_parse (sample_env [Some (archive_response ''malformed'')] sample_zips) frag_bad = None \<and>
   zip_open (sample_env [Some (archive_response ''malformed'')] sample_zips) ''malformed'' =
     Some [\<lparr> filename = ''a.xml'', payload = Some (''<Doc>'' @ frag_A @ frag_bad @ ''</Doc>'') \<rparr>] \<and>
   get_data (sample_env [Some (archive_response ''malformed'')] sample_zips) ''http://a'' False [] =
     (Inl ParseError, [Get ''http://a''])"
  by code_simp

text \<open>
  C2 amended. A fragment that \<open>ElementTree.parse\<close> rejects is not skipped: whatever the
  archive holds besides, \<open>get_data\<close> raises and returns no mapping. The exception is
  \<open>ParseError\<close> when the archive passed the check of line 80, the members before the
  one with the malformed fragment are read, decoded and made of well-formed fragments
  (each parses and has every configured path), and so are the fragments that follow the
  malformed one in its member, which the loop takes first. An archive with at least one
  member, whose members are all read, decoded and made of well-formed fragments, gives
  exactly one mapping per fragment.
\<close>

theorem malformed_fragment_fails_extraction:
  assumes "http_get E (gets tr) target = Some r"
    and "zip_open E (resp_content r) = Some filelist"
  shows "(file \<in> set filelist \<and> fragments E file = Some frs \<and> f \<in> set frs \<and> xml_parse E f = None \<longrightarrow>
            (\<exists>e. get_data E target retry tr = (Inl e, tr @ [Get target]))) \<and>
         (\<not> truthy (testzip filelist) \<and> filelist = before @ file # after \<and>
          list_all (member_ok E) before \<and> fragments E file = Some (fs @ f # gs) \<and>
          xml_parse E f = None \<and> list_all (well_formed E) gs \<longrightarrow>
            get_data E target retry tr = (Inl ParseError, tr @ [Get target])) \<and>
         (filelist \<noteq> [] \<and> list_all (member_ok E) filelist \<longrightarrow>
            (\<exists>output. get_data E target retry tr =
               (Inr (output, filename (last filelist)), tr @ [Get target]) \<and>
             length output = sum_list (map (n_fragments E) filelist)))"
proof (intro conjI impI)
  assume bad: "file \<in> set filelist \<and> fragments E file = Some frs \<and> f \<in> set frs \<and> xml_parse E f = None"
  then have "\<not> well_formed E f"
    by (simp add: well_formed_def)
  with bad files_malformed [of "file" filelist E frs f "[]"]
  obtain e where "get_data_files E filelist [] = Inl e"
    by blast
  then show "\<exists>e. get_data E target retry tr = (Inl e, tr @ [Get target])"
    by (simp add: get_data_response [OF assms])
next
  assume bad: "\<not> truthy (testzip filelist) \<and> filelist = before @ file # after \<and>
          list_all (member_ok E) before \<and> fragments E file = Some (fs @ f # gs) \<and>
          xml_parse E f = None \<and> list_all (well_formed E) gs"
  then have "get_data_files E (before @ file # after) [] = Inl ParseError"
    by (intro files_parse_error [of E before "file" fs f gs]) simp_all
  with bad have "get_data_files E filelist [] = Inl ParseError"
    by simp
  moreover from bad have "\<not> truthy (testzip filelist)"
    by blast
  ultimately show "get_data E target retry tr = (Inl ParseError, tr @ [Get target])"
    by (simp add: get_data_response [OF assms])
next
  assume "filelist \<noteq> [] \<and> list_all (member_ok E) filelist"
  with get_data_well_formed [OF assms, of retry] show
    "\<exists>output. get_data E target retry tr =
               (Inr (output, filename (last filelist)), tr @ [Get target]) \<and>
             length output = sum_list (map (n_fragments E) filelist)"
    by blast
qed

theorem malformed_fragment_fails_extraction_witness:
  "http_get (sample_env [Some (archive_response ''malformed'')] sample_zips) (gets []) ''http://a'' =
     Some (archive_response ''malformed'') \<and>
   zip_open (sample_env [Some (archive_response ''malformed'')] sample_zips)
     (resp_content (archive_response ''malformed'')) = Some malformed_archive \<and>
   hd malformed_archive \<in> set malformed_archive \<and>
   fragments (sample_env [Some (archive_response ''malformed'')] sample_zips) (hd malformed_archive) =
     Some [frag_A, frag_bad] \<and>
   frag_bad \<in> set [frag_A, frag_bad] \<and>
   xml_parse (sample_env [Some (archive_response ''malformed'')] sample_zips) frag_bad = None \<and>
   \<not> truthy (testzip malformed_archive) \<and>
   malformed_archive = [] @ hd malformed_archive # [] \<and>
   list_all (member_ok (sample_env [Some (archive_response ''malformed'')] sample_zips)) [] \<and>
   [frag_A, frag_bad] = [frag_A] @ frag_bad # [] \<and>
   list_all (well_formed (sample_env [Some (archive_response ''malformed'')] sample_zips)) [] \<and>
   get_data (sample_env [Some (archive_response ''malformed'')] sample_zips) ''http://a'' False [] =
      (Inl ParseError, [Get ''http://a'']) \<and>
   http_get (sample_env [Some (archive_response ''good'')] sample_zips) (gets []) ''http://a'' =
     Some (archive_response ''good'') \<and>
   zip_open (sample_env [Some (archive_response ''good'')] sample_zips)
     (resp_content (archive_response ''good'')) = Some good_archive \<and>
   good_archive \<noteq> [] \<and>
   list_all (member_ok (sample_env [Some (archive_response ''good'')] sample_zips)) good_archive \<and>
   (\<exists>output. get_data (sample_env [Some (archive_response ''good'')] sample_zips) ''http://a'' False [] =
      (Inr (output, ''b.xml''), [Get ''http://a'']) \<and> length output = 3)"
proof -
  let ?M = "sample_env [Some (archive_response ''malformed'')] sample_zips"
  let ?G = "sample_env [Some (archive_response ''good'')] sample_zips"
  have m1: "http_get ?M (gets []) ''http://a'' = Some (archive_response ''malformed'')"
    by code_simp
  have m2: "zip_open ?M (resp_content (archive_response ''malformed'')) = Some malformed_archive"
    by code_simp
  have m3: "hd malformed_archive \<in> set malformed_archive"
    by (simp add: malformed_archive_def)
  have m4: "fragments ?M (hd malformed_archive) = Some [frag_A, frag_bad]"
    by code_simp
  have m5: "frag_bad \<in> set [frag_A, frag_bad]"
    by simp
  have m6: "xml_parse ?M frag_bad = None"
    by code_simp
  have m7: "\<not> truthy (testzip malformed_archive)"
    by code_simp
  have m8: "malformed_archive = [] @ hd malformed_archive # []"
    by (simp add: malformed_archive_def)
  have m9: "list_all (member_ok ?M) []"
    by simp
  have m10: "[frag_A, frag_bad] = [frag_A] @ frag_bad # []"
    by simp
  have m11: "list_all (well_formed ?M) []"
    by simp
  note inst = malformed_fragment_fails_extraction
    [OF m1 m2, of "hd malformed_archive" "[frag_A, frag_bad]" frag_bad False "[]" "[]" "[frag_A]" "[]"]
  from inst m4 m6 m7 m8 m9 m11
  have "get_data ?M ''http://a'' False [] = (Inl ParseError, [] @ [Get ''http://a''])"
    by simp
  then have mres: "get_data ?M ''http://a'' False [] = (Inl ParseError, [Get ''http://a''])"
    by simp
  have g1: "http_get ?G (gets []) ''http://a'' = Some (archive_response ''good'')"
    by code_simp
  have g2: "zip_open ?G (resp_content (archive_response ''good'')) = Some good_archive"
    by code_simp
  have g3: "good_archive \<noteq> []"
    by (simp add: good_archive_def)
  have g4: "list_all (member_ok ?G) good_archive"
    by code_simp
  have g5: "filename (last good_archive) = ''b.xml''"
    by (simp add: good_archive_def)
  have g6: "sum_list (map (n_fragments ?G) good_archive) = 3"
    by code_simp
  from malformed_fragment_fails_extraction
    [OF g1 g2, of "hd good_archive" "[]" "[]" False "[]" "[]" "[]" "[]"] g3 g4
  have gres: "\<exists>output. get_data ?G ''http://a'' False [] =
      (Inr (output, ''b.xml''), [Get ''http://a'']) \<and> length output = 3"
    by (simp add: g5 g6)
  from m1 m2 m3 m4 m5 m6 m7 m8 m9 m10 m11 mres g1 g2 g3 g4 gres show ?thesis
    by (intro conjI)
qed

text \<open>
  C9. The name \<open>get_data\<close> returns with the mappings is the file name of the last member
  in the archive's list, also when the archive has several members; and it does return,
  with that name, when the archive has a member and every member is read, decoded and
  made of well-formed fragments.
\<close>

theorem get_data_last_filename:
  assumes "http_get E (gets tr) target = Some r"
    and "zip_open E (resp_content r) = Some filelist"
  shows "(fst (get_data E target retry tr) = Inr (output, name) \<longrightarrow>
            filelist \<noteq> [] \<and> name = filename (last filelist)) \<and>
         (filelist \<noteq> [] \<and> list_all (member_ok E) filelist \<longrightarrow>
            (\<exists>output. get_data E target retry tr =
               (Inr (output, filename (last filelist)), tr @ [Get target])))"
proof (rule conjI; rule impI)
  assume "fst (get_data E target retry tr) = Inr (output, name)"
  then show "filelist \<noteq> [] \<and> name = filename (last filelist)"
    by (auto simp: get_data_response [OF assms] split: if_splits sum.splits)
next
  assume "filelist \<noteq> [] \<and> list_all (member_ok E) filelist"
  with get_data_well_formed [OF assms, of retry] show
    "\<exists>output. get_data E target retry tr = (Inr (output, filename (last filelist)), tr @ [Get target])"
    by blast
qed

theorem get_data_last_filename_witness:
  "http_get (sample_env [Some (archive_response ''good'')] sample_zips) (gets []) ''http://a'' =
     Some (archive_response ''good'') \<and>
   zip_open (sample_env [Some (archive_response ''good'')] sample_zips)
     (resp_content (archive_response ''good'')) = Some good_archive \<and>
   map filename good_archive = [''a.xml'', ''b.xml''] \<and>
   list_all (member_ok (sample_env [Some (archive_response ''good'')] sample_zips)) good_archive \<and>
   fst (get_data (sample_env [Some (archive_response ''good'')] sample_zips) ''http://a'' False []) =
     Inr ([[(''Id'', Some ''B''), (''Nm'', None)],
           [(''Id'', Some ''A''), (''Nm'', Some ''x'')],
           [(''Id'', Some ''A''), (''Nm'', Some ''x'')]], ''b.xml'') \<and>
   ''b.xml'' = filename (last good_archive) \<and>
   (\<exists>output. get_data (sample_env [Some (archive_response ''good'')] sample_zips) ''http://a'' False [] =
      (Inr (output, filename (last good_archive)), [Get ''http://a'']))"
proof -
  let ?G = "sample_env [Some (archive_response ''good'')] sample_zips"
  let ?out = "[[(''Id'', Some ''B''), (''Nm'', None)],
           [(''Id'', Some ''A''), (''Nm'', Some ''x'')],
           [(''Id'', Some ''A''), (''Nm'', Some ''x'')]]"
  have g1: "http_get ?G (gets []) ''http://a'' = Some (archive_response ''good'')"
    by code_simp
  have g2: "zip_open ?G (resp_content (archive_response ''good'')) = Some good_archive"
    by code_simp
  have g3: "map filename good_archive = [''a.xml'', ''b.xml'']"
    by (simp add: good_archive_def)
  then have g3': "good_archive \<noteq> []"
    by auto
  have g4: "list_all (member_ok ?G) good_archive"
    by code_simp
  have g5: "fst (get_data ?G ''http://a'' False []) = Inr (?out, ''b.xml'')"
    by code_simp
  note inst = get_data_last_filename [OF g1 g2, of False ?out "''b.xml''"]
  from inst g5 have g6: "''b.xml'' = filename (last good_archive)"
    by blast
  from inst g3' g4 have g7: "\<exists>output. get_data ?G ''http://a'' False [] =
      (Inr (output, filename (last good_archive)), [Get ''http://a''])"
    by simp
  from g1 g2 g3 g4 g5 g6 g7 show ?thesis
    by (intro conjI)
qed



section \<open>Transport failures\<close>

text \<open>
  C4. When the registry request or the archive request raises a \<open>RequestException\<close>,
  the function sleeps 10 seconds and calls itself once more with \<open>retry\<close> set. When that
  request raises as well, it exits: the request was made exactly twice, and
  \<open>put_first_firds_file_in_s3\<close> ends with \<open>SystemExit\<close> at that point, before anything is
  serialized or written to the sink.
\<close>

theorem transport_failure_retried_once:
  "(http_get E (gets tr) (URL E) = None \<longrightarrow>
      get_latest_file E False tr = get_latest_file E True (tr @ [Get (URL E), Sleep 10]) \<and>
      (http_get E (Suc (gets tr)) (URL E) = None \<longrightarrow>
         get_latest_file E False tr = (Inl SystemExit, tr @ [Get (URL E), Sleep 10, Get (URL E)]) \<and>
         put_first_firds_file_in_s3 E bucket tr =
           (Inl SystemExit, tr @ [Get (URL E), Sleep 10, Get (URL E)]))) \<and>
   (http_get E (gets tr) target = None \<longrightarrow>
      get_data E target False tr = get_data E target True (tr @ [Get target, Sleep 10]) \<and>
      (http_get E (Suc (gets tr)) target = None \<longrightarrow>
         get_data E target False tr = (Inl SystemExit, tr @ [Get target, Sleep 10, Get target]) \<and>
         (get_latest_file E False tr0 = (Inr (Some target), tr) \<and> target \<noteq> [] \<longrightarrow>
            put_first_firds_file_in_s3 E bucket tr0 =
              (Inl SystemExit, tr @ [Get target, Sleep 10, Get target]))))"
proof (intro conjI impI)
  assume fail: "http_get E (gets tr) (URL E) = None"
  then show first: "get_latest_file E False tr = get_latest_file E True (tr @ [Get (URL E), Sleep 10])"
    by (subst get_latest_file.simps) simp
  assume "http_get E (Suc (gets tr)) (URL E) = None"
  then have "get_latest_file E True (tr @ [Get (URL E), Sleep 10]) =
      (Inl SystemExit, tr @ [Get (URL E), Sleep 10, Get (URL E)])"
    by (subst get_latest_file.simps) (simp add: gets_retry)
  with first show second: "get_latest_file E False tr =
      (Inl SystemExit, tr @ [Get (URL E), Sleep 10, Get (URL E)])"
    by simp
  then show "put_first_firds_file_in_s3 E bucket tr =
      (Inl SystemExit, tr @ [Get (URL E), Sleep 10, Get (URL E)])"
    by (simp add: put_first_firds_file_in_s3_def)
next
  assume fail: "http_get E (gets tr) target = None"
  then show first: "get_data E target False tr = get_data E target True (tr @ [Get target, Sleep 10])"
    by (subst get_data.simps) simp
  assume "http_get E (Suc (gets tr)) target = None"
  then have "get_data E target True (tr @ [Get target, Sleep 10]) =
      (Inl SystemExit, tr @ [Get target, Sleep 10, Get target])"
    by (subst get_data.simps) (simp add: gets_retry)
  with first show second: "get_data E target False tr =
      (Inl SystemExit, tr @ [Get target, Sleep 10, Get target])"
    by simp
  assume "get_latest_file E False tr0 = (Inr (Some target), tr) \<and> target \<noteq> []"
  with second show "put_first_firds_file_in_s3 E bucket tr0 =
      (Inl SystemExit, tr @ [Get target, Sleep 10, Get target])"
    by (simp add: put_first_firds_file_in_s3_def)
qed

theorem transport_failure_retried_once_witness:
  "http_get (sample_env [] sample_zips) (gets []) (URL (sample_env [] sample_zips)) = None \<and>
   http_get (sample_env [] sample_zips) (Suc (gets [])) (URL (sample_env [] sample_zips)) = None \<and>
   get_latest_file (sample_env [] sample_zips) False [] =
     (Inl SystemExit, [Get ''http://registry'', Sleep 10, Get ''http://registry'']) \<and>
   put_first_firds_file_in_s3 (sample_env [] sample_zips) ''bucket'' [] =
     (Inl SystemExit, [Get ''http://registry'', Sleep 10, Get ''http://registry'']) \<and>
   http_get (sample_env [Some (feed_response sample_feed_text)] sample_zips)
     (gets [Get ''http://registry'']) ''http://a'' = None \<and>
   http_get (sample_env [Some (feed_response sample_feed_text)] sample_zips)
     (Suc (gets [Get ''http://registry''])) ''http://a'' = None \<and>
   get_latest_file (sample_env [Some (feed_response sample_feed_text)] sample_zips) False [] =
     (Inr (Some ''http://a''), [Get ''http://registry'']) \<and>
   get_data (sample_env [Some (feed_response sample_feed_text)] sample_zips) ''http://a'' False
     [Get ''http://registry''] =
     (Inl SystemExit, [Get ''http://registry'', Get ''http://a'', Sleep 10, Get ''http://a'']) \<and>
   put_first_firds_file_in_s3 (sample_env [Some (feed_response sample_feed_text)] sample_zips) ''bucket'' [] =
     (Inl SystemExit, [Get ''http://registry'', Get ''http://a'', Sleep 10, Get ''http://a''])"
proof -
  let ?N = "sample_env [] sample_zips"
  let ?F = "sample_env [Some (feed_response sample_feed_text)] sample_zips"
  have n0: "URL ?N = ''http://registry''"
    by (simp add: sample_env_def)
  have n1: "http_get ?N (gets []) (URL ?N) = None"
    by (simp add: sample_env_def)
  have n2: "http_get ?N (Suc (gets [])) (URL ?N) = None"
    by (simp add: sample_env_def)
  note reg = transport_failure_retried_once [of ?N "[]" "''bucket''" "''http://a''" "[]"]
  from reg n1 n2 have "get_latest_file ?N False [] =
     (Inl SystemExit, [] @ [Get (URL ?N), Sleep 10, Get (URL ?N)])"
    by blast
  then have n3: "get_latest_file ?N False [] =
     (Inl SystemExit, [Get ''http://registry'', Sleep 10, Get ''http://registry''])"
    by (simp only: n0 append_Nil)
  from reg n1 n2 have "put_first_firds_file_in_s3 ?N ''bucket'' [] =
     (Inl SystemExit, [] @ [Get (URL ?N), Sleep 10, Get (URL ?N)])"
    by blast
  then have n4: "put_first_firds_file_in_s3 ?N ''bucket'' [] =
     (Inl SystemExit, [Get ''http://registry'', Sleep 10, Get ''http://registry''])"
    by (simp only: n0 append_Nil)
  have f1: "http_get ?F (gets [Get ''http://registry'']) ''http://a'' = None"
    by (simp add: sample_env_def gets_def)
  have f2: "http_get ?F (Suc (gets [Get ''http://registry''])) ''http://a'' = None"
    by (simp add: sample_env_def gets_def)
  have f3: "get_latest_file ?F False [] = (Inr (Some ''http://a''), [Get ''http://registry''])"
    by code_simp
  note arch = transport_failure_retried_once
    [of ?F "[Get ''http://registry'']" "''bucket''" "''http://a''" "[]"]
  have a0: "''http://a'' \<noteq> []"
    by simp
  from arch f1 f2 have "get_data ?F ''http://a'' False [Get ''http://registry''] =
     (Inl SystemExit, [Get ''http://registry''] @ [Get ''http://a'', Sleep 10, Get ''http://a''])"
    by blast
  then have f4: "get_data ?F ''http://a'' False [Get ''http://registry''] =
     (Inl SystemExit, [Get ''http://registry'', Get ''http://a'', Sleep 10, Get ''http://a''])"
    by (simp only: append_Cons append_Nil)
  from arch f1 f2 f3 a0 have "put_first_firds_file_in_s3 ?F ''bucket'' [] =
     (Inl SystemExit, [Get ''http://registry''] @ [Get ''http://a'', Sleep 10, Get ''http://a''])"
    by blast
  then have f5: "put_first_firds_file_in_s3 ?F ''bucket'' [] =
     (Inl SystemExit, [Get ''http://registry'', Get ''http://a'', Sleep 10, Get ''http://a''])"
    by (simp only: append_Cons append_Nil)
  from n1 n2 n3 n4 f1 f2 f3 f4 f5 show ?thesis
    by (intro conjI)
qed

end
